theory Spec2Isabelle
  imports Complex_Main "HOL-Library.Log_Nat"
begin

section \<open>Arrays and loops of the JavaScript source\<close>

text \<open>
  The service \<^verbatim>\<open>src/services/backgroundRemovalService.js\<close> works on typed arrays.
  A \<^verbatim>\<open>Uint8Array\<close> or \<^verbatim>\<open>Uint8ClampedArray\<close> is a list of naturals (its bytes), image
  dimensions are naturals (a canvas width or height), and every other number is a real.
  Where the source rounds a product down to a byte (\<^verbatim>\<open>applyMaskWithFeathering\<close>,
  \<^verbatim>\<open>applyMaskWithSmoothAlpha\<close>) and where it stores distances in a \<^verbatim>\<open>Float32Array\<close>
  (\<^verbatim>\<open>createDistanceMap\<close>), every operation is rounded as IEEE 754 rounds it; the colour
  distances and the alpha of the Matte Estimator are computed over the reals.  An array
  the source calls \<^verbatim>\<open>mask\<close> is \<open>mask'\<close> here, since \<open>mask\<close> is a constant of the library.

  Reading \<^verbatim>\<open>a[i]\<close> outside the array gives \<^verbatim>\<open>undefined\<close>, here \<open>None\<close>; writing outside a
  typed array is ignored, which is what \<open>list_update\<close> does.  A counting loop
  \<^verbatim>\<open>for (let y = a; y < b; y++)\<close> is a \<open>fold\<close> over \<open>[a..<b]\<close>; where the source computes the
  bound as \<^verbatim>\<open>height - r\<close> and the difference is negative the loop body never runs, and the
  truncated difference of naturals gives the same empty range.
\<close>

definition rd :: "'a list \<Rightarrow> int \<Rightarrow> 'a option" where
  "rd a i = (if 0 \<le> i \<and> i < int (length a) then Some (a ! nat i) else None)"

section \<open>Rounding of JavaScript numbers\<close>

text \<open>
  A JavaScript number is an IEEE 754 double: the result of an operation is the exact
  result rounded to the nearest number with 53 significant bits, and of two nearest
  numbers to the one whose last bit is even.  \<open>binade x\<close> is the exponent \<open>e\<close> with
  \<open>2\<^sup>e \<le> |x| < 2\<^sup>e\<^sup>+\<^sup>1\<close>, and \<open>roundTo p\<close> rounds to \<open>p\<close> significant bits; \<open>fl64\<close> is the rounding
  of a double and \<open>fl32\<close> that of an entry of a \<^verbatim>\<open>Float32Array\<close>.  The range of the exponent
  is not modelled: the numbers that are rounded here are 0 or of a size between 1/255
  and the largest distance in the image, far inside the range of both formats.
\<close>

definition roundHalfEven :: "real \<Rightarrow> int" where
  "roundHalfEven q =
     (let f = \<lfloor>q\<rfloor>
      in if q - of_int f < 1 / 2 then f
         else if 1 / 2 < q - of_int f then f + 1
         else if even f then f else f + 1)"

definition binade :: "real \<Rightarrow> int" where
  "binade x = (if x = 0 then 0 else \<lfloor>log 2 \<bar>x\<bar>\<rfloor>)"

definition roundTo :: "nat \<Rightarrow> real \<Rightarrow> real" where
  "roundTo p x =
     (let ulp = 2 powi (binade x - int p + 1)
      in sgn x * of_int (roundHalfEven (\<bar>x\<bar> / ulp)) * ulp)"

definition fl64 :: "real \<Rightarrow> real" where
  "fl64 x = roundTo 53 x"

definition fl32 :: "real \<Rightarrow> real" where
  "fl32 x = roundTo 24 x"

section \<open>Trimap Builder: createTrimap\<close>

text \<open>
  The scan of lines 151-160: the two loops over \<^verbatim>\<open>dy\<close> and \<^verbatim>\<open>dx\<close> stop as soon as one
  neighbour differs from the pixel, so the flag is the existence of such a neighbour.
\<close>

definition isNearBoundary :: "nat list \<Rightarrow> nat \<Rightarrow> nat \<Rightarrow> nat \<Rightarrow> bool" where
  "isNearBoundary trimap width y x =
     list_ex (\<lambda>dy. list_ex (\<lambda>dx.
        \<not> (dx = 0 \<and> dy = 0) \<and>
        rd trimap ((int y + dy) * int width + (int x + dx)) \<noteq> rd trimap (int (y * width + x)))
      [-3..3]) [-3..3]"

definition createTrimap :: "nat list \<Rightarrow> nat \<Rightarrow> nat \<Rightarrow> nat list" where
  "createTrimap segmentationData width height =
     (let trimap = map (\<lambda>s. if s = 0 then 0 else 255) segmentationData;
          expanded = trimap
      in fold (\<lambda>y. fold (\<lambda>x expanded.
             if isNearBoundary trimap width y x
             then expanded[y * width + x := 128] else expanded)
           [3..<width - 3]) [3..<height - 3] expanded)"

section \<open>Mask Refiner: smoothMaskEdges\<close>

text \<open>
  Lines 576-583: the scan for a cell of the 3x3 window that differs from the pixel (the
  pixel itself is scanned too and never differs).  Lines 587-594 and 615-622: the number of
  cells of the 3x3 window, the pixel included, that hold 1.
\<close>

definition isBoundary :: "nat list \<Rightarrow> nat \<Rightarrow> nat \<Rightarrow> nat \<Rightarrow> bool" where
  "isBoundary mask' width y x =
     list_ex (\<lambda>dy. list_ex (\<lambda>dx.
        rd mask' ((int y + dy) * int width + (int x + dx)) \<noteq> rd mask' (int (y * width + x)))
      [-1..1]) [-1..1]"

definition foregroundNeighbors :: "nat list \<Rightarrow> nat \<Rightarrow> nat \<Rightarrow> nat \<Rightarrow> nat" where
  "foregroundNeighbors mask' width y x =
     length (filter (\<lambda>(dy, dx). rd mask' ((int y + dy) * int width + (int x + dx)) = Some 1)
       (List.product [-1..1] [-1..1]))"

text \<open>The erosion loop of lines 566-601, which reads \<^verbatim>\<open>mask\<close> and writes its copy.\<close>

definition erode :: "nat list \<Rightarrow> nat \<Rightarrow> nat \<Rightarrow> nat list" where
  "erode mask' width height =
     fold (\<lambda>y. fold (\<lambda>x eroded.
        if isBoundary mask' width y x \<and> rd mask' (int (y * width + x)) = Some 1
        then (if foregroundNeighbors mask' width y x < 5
              then eroded[y * width + x := 0] else eroded)
        else eroded)
      [1..<width - 1]) [1..<height - 1] mask'"

text \<open>The dilation loop of lines 604-629, which reads the eroded mask and writes its copy.\<close>

definition dilate :: "nat list \<Rightarrow> nat \<Rightarrow> nat \<Rightarrow> nat list" where
  "dilate eroded width height =
     fold (\<lambda>y. fold (\<lambda>x dilated.
        if rd eroded (int (y * width + x)) = Some 0
        then (if 5 \<le> foregroundNeighbors eroded width y x
              then dilated[y * width + x := 1] else dilated)
        else dilated)
      [1..<width - 1]) [1..<height - 1] eroded"

definition smoothMaskEdges :: "nat list \<Rightarrow> nat \<Rightarrow> nat \<Rightarrow> nat list" where
  "smoothMaskEdges mask' width height = dilate (erode mask' width height) width height"

text \<open>
  The two passes as section 4.5 of the specification words them, for comparison with
  \<open>erode\<close> and \<open>dilate\<close>: the rule is applied at every pixel of the buffer, the window of a
  pixel being the cells of its 3x3 neighbourhood that lie inside the buffer.
\<close>

definition spec_window :: "nat \<Rightarrow> nat \<Rightarrow> nat \<Rightarrow> nat \<Rightarrow> (nat \<times> nat) list" where
  "spec_window width height y x =
     List.product [y - 1..<min height (y + 2)] [x - 1..<min width (x + 2)]"

definition spec_foreground :: "nat list \<Rightarrow> nat \<Rightarrow> nat \<Rightarrow> nat \<Rightarrow> nat \<Rightarrow> nat" where
  "spec_foreground mask' width height y x =
     length (filter (\<lambda>(ny, nx). mask' ! (ny * width + nx) = 1) (spec_window width height y x))"

definition spec_boundary :: "nat list \<Rightarrow> nat \<Rightarrow> nat \<Rightarrow> nat \<Rightarrow> nat \<Rightarrow> bool" where
  "spec_boundary mask' width height y x =
     list_ex (\<lambda>(ny, nx). mask' ! (ny * width + nx) \<noteq> mask' ! (y * width + x))
       (spec_window width height y x)"

definition spec_eroded_label :: "nat list \<Rightarrow> nat \<Rightarrow> nat \<Rightarrow> nat \<Rightarrow> nat \<Rightarrow> nat" where
  "spec_eroded_label mask' width height y x =
     (if mask' ! (y * width + x) = 1 \<and> spec_boundary mask' width height y x
         \<and> spec_foreground mask' width height y x < 5
      then 0 else mask' ! (y * width + x))"

definition spec_dilated_label :: "nat list \<Rightarrow> nat \<Rightarrow> nat \<Rightarrow> nat \<Rightarrow> nat \<Rightarrow> nat" where
  "spec_dilated_label eroded width height y x =
     (if eroded ! (y * width + x) = 0 \<and> 5 \<le> spec_foreground eroded width height y x
      then 1 else eroded ! (y * width + x))"

section \<open>Mask Refiner: refineAlgorithmMask\<close>

text \<open>
  Line 868 calls \<^verbatim>\<open>detectImageEdges(imageData, width, height)\<close>.  The module neither declares
  nor imports that identifier, so what it is bound to is a parameter of the model: \<open>None\<close>
  when it is unbound, as in the source file as it stands, where the call raises a
  ReferenceError; \<open>Some f\<close> when a function \<open>f\<close> from the image to an array of edge strengths
  is bound to it.
\<close>

datatype error = ReferenceError

type_synonym edge_detector = "nat list \<Rightarrow> nat \<Rightarrow> nat \<Rightarrow> real list"

text \<open>Lines 883-895: the cells of the 5x5 window that hold 1, and the others.\<close>

definition foregroundCount :: "nat list \<Rightarrow> nat \<Rightarrow> nat \<Rightarrow> nat \<Rightarrow> nat" where
  "foregroundCount mask' width y x =
     length (filter (\<lambda>(dy, dx). rd mask' ((int y + dy) * int width + (int x + dx)) = Some 1)
       (List.product [-2..2] [-2..2]))"

definition backgroundCount :: "nat list \<Rightarrow> nat \<Rightarrow> nat \<Rightarrow> nat \<Rightarrow> nat" where
  "backgroundCount mask' width y x =
     length (filter (\<lambda>(dy, dx). rd mask' ((int y + dy) * int width + (int x + dx)) \<noteq> Some 1)
       (List.product [-2..2] [-2..2]))"

text \<open>\<^verbatim>\<open>edges[idx] > 0\<close>, which is false for \<^verbatim>\<open>undefined\<close>.\<close>

definition onEdge :: "real list \<Rightarrow> nat \<Rightarrow> bool" where
  "onEdge edges idx = (case rd edges (int idx) of Some e \<Rightarrow> 0 < e | None \<Rightarrow> False)"

text \<open>The voting loop of lines 869-905, which reads \<^verbatim>\<open>mask\<close> and writes its copy.\<close>

definition refineEdges :: "real list \<Rightarrow> nat list \<Rightarrow> nat \<Rightarrow> nat \<Rightarrow> nat list" where
  "refineEdges edges mask' width height =
     fold (\<lambda>y. fold (\<lambda>x refined.
        if onEdge edges (y * width + x)
        then (if real (foregroundCount mask' width y x) > real (backgroundCount mask' width y x) * 1.5
              then refined[y * width + x := 1]
              else if real (backgroundCount mask' width y x) > real (foregroundCount mask' width y x) * 1.5
              then refined[y * width + x := 0]
              else refined)
        else refined)
      [2..<width - 2]) [2..<height - 2] mask'"

definition refineAlgorithmMask ::
    "edge_detector option \<Rightarrow> nat list \<Rightarrow> nat list \<Rightarrow> nat \<Rightarrow> nat \<Rightarrow> error + nat list" where
  "refineAlgorithmMask detectImageEdges imageData mask' width height =
     (case detectImageEdges of
        None \<Rightarrow> Inl ReferenceError
      | Some detect \<Rightarrow>
          (let edges = detect imageData width height;
               smoothed = smoothMaskEdges (refineEdges edges mask' width height) width height;
               feathered = map (\<lambda>s. if s = 1 then 255 else 0) smoothed
           in Inr feathered))"

section \<open>Compositor of the heuristic path: applyMaskWithFeathering\<close>

text \<open>
  A value stored into the \<^verbatim>\<open>Uint8ClampedArray\<close> of the image is clamped to 0..255.  The loop
  of lines 922-934 visits \<^verbatim>\<open>i = 0, 4, 8, ...\<close> below \<^verbatim>\<open>data.length\<close>; \<^verbatim>\<open>idx\<close> is \<^verbatim>\<open>i / 4\<close>.
  Where \<^verbatim>\<open>i + 3\<close> is outside the array the store is ignored.  In lines 930-931 the
  quotient \<^verbatim>\<open>mask[idx] / 255\<close> and the product with the old alpha are doubles.
\<close>

definition u8clamp :: "int \<Rightarrow> nat" where
  "u8clamp v = nat (max 0 (min 255 v))"

definition applyMaskWithFeathering :: "nat list \<Rightarrow> nat list \<Rightarrow> nat \<Rightarrow> nat \<Rightarrow> nat list" where
  "applyMaskWithFeathering data mask' width height =
     fold (\<lambda>idx data.
        (case rd mask' (int idx) of
           None \<Rightarrow> data
         | Some m \<Rightarrow>
             if m = 0 then data[4 * idx + 3 := 0]
             else if m < 255 then
               (if 4 * idx + 3 < length data
                then data[4 * idx + 3 :=
                       u8clamp \<lfloor>fl64 (real (data ! (4 * idx + 3)) * fl64 (real m / 255))\<rfloor>]
                else data)
             else data))
      [0..<(length data + 3) div 4] data"

text \<open>
  The relabelling as section 4.5 of the specification words it, for comparison with
  \<open>refineEdges\<close>: a pixel is an edge pixel when its 3x3 neighbourhood holds a label that
  differs from its own, and an edge pixel takes the majority label of its 5x5 window.
\<close>

definition spec_edge_pixel :: "nat list \<Rightarrow> nat \<Rightarrow> nat \<Rightarrow> nat \<Rightarrow> bool" where
  "spec_edge_pixel mask' width y x =
     list_ex (\<lambda>(dy, dx).
        rd mask' ((int y + dy) * int width + (int x + dx)) \<noteq> rd mask' (int (y * width + x)))
      (List.product [-1..1] [-1..1])"

definition spec_refined_label :: "nat list \<Rightarrow> nat \<Rightarrow> nat \<Rightarrow> nat \<Rightarrow> nat" where
  "spec_refined_label mask' width y x =
     (if spec_edge_pixel mask' width y x
      then (if 2 * foregroundCount mask' width y x > 3 * backgroundCount mask' width y x then 1
            else if 2 * backgroundCount mask' width y x > 3 * foregroundCount mask' width y x then 0
            else mask' ! (y * width + x))
      else mask' ! (y * width + x))"

text \<open>
  Two 7x7 masks used as concrete inputs: a 3x3 block of ones in the middle, and a single
  one in the middle.
\<close>

definition block_mask :: "nat list" where
  "block_mask = [0,0,0,0,0,0,0, 0,0,0,0,0,0,0, 0,0,1,1,1,0,0, 0,0,1,1,1,0,0,
                 0,0,1,1,1,0,0, 0,0,0,0,0,0,0, 0,0,0,0,0,0,0]"

definition dot_mask :: "nat list" where
  "dot_mask = [0,0,0,0,0,0,0, 0,0,0,0,0,0,0, 0,0,0,0,0,0,0, 0,0,0,1,0,0,0,
               0,0,0,0,0,0,0, 0,0,0,0,0,0,0, 0,0,0,0,0,0,0]"

section \<open>JavaScript numbers that may be NaN or undefined\<close>

text \<open>
  A value that the source uses as a number is \<open>Num\<close> of a real, \<^verbatim>\<open>NaN\<close> or \<^verbatim>\<open>undefined\<close>.  In
  arithmetic \<^verbatim>\<open>undefined\<close> becomes \<^verbatim>\<open>NaN\<close>, and \<^verbatim>\<open>NaN\<close> spreads through every operation, so a
  computed number is a \<open>real option\<close> with \<open>None\<close> for \<^verbatim>\<open>NaN\<close>.  A comparison with \<^verbatim>\<open>NaN\<close> is
  false.
\<close>

datatype jsval = Num real | NaN | Undefined

datatype rgb = RGB (red: jsval) (green: jsval) (blue: jsval)

definition num :: "jsval \<Rightarrow> real option" where
  "num v = (case v of Num x \<Rightarrow> Some x | NaN \<Rightarrow> None | Undefined \<Rightarrow> None)"

definition byte :: "nat list \<Rightarrow> int \<Rightarrow> real option" where
  "byte data i = map_option real (rd data i)"

definition below :: "real option \<Rightarrow> real \<Rightarrow> bool" where
  "below d t = (case d of Some v \<Rightarrow> v < t | None \<Rightarrow> False)"

section \<open>Color Sampler: getBorderColors and getDominantColor\<close>

text \<open>
  Lines 679-716.  A sampled colour is the array \<^verbatim>\<open>[data[idx], data[idx + 1], data[idx + 2]]\<close>,
  whose entries are \<^verbatim>\<open>undefined\<close> where the image array is too short.
\<close>

definition borderPixel :: "nat list \<Rightarrow> nat \<Rightarrow> nat \<Rightarrow> nat \<Rightarrow> nat option \<times> nat option \<times> nat option" where
  "borderPixel data width y x =
     (let idx = int ((y * width + x) * 4)
      in (rd data idx, rd data (idx + 1), rd data (idx + 2)))"

definition getBorderColors :: "nat list \<Rightarrow> nat \<Rightarrow> nat \<Rightarrow> (nat option \<times> nat option \<times> nat option) list" where
  "getBorderColors data width height =
     (let borderSize = min 30 (min (width div 15) (height div 15))
      in concat (map (\<lambda>y. map (\<lambda>x. borderPixel data width y x) [0..<width]) [0..<borderSize])
       @ concat (map (\<lambda>y. map (\<lambda>x. borderPixel data width y x) [0..<width])
                   [height - borderSize..<height])
       @ concat (map (\<lambda>y. map (\<lambda>x. borderPixel data width y x) [0..<borderSize]) [0..<height])
       @ concat (map (\<lambda>y. map (\<lambda>x. borderPixel data width y x) [width - borderSize..<width])
                   [0..<height]))"

text \<open>
  Lines 841-861.  The key of a bucket is the string of the three numbers
  \<^verbatim>\<open>Math.floor(c / 20)\<close> joined by commas, here the triple of the numbers, with \<open>None\<close> where
  the string reads \<^verbatim>\<open>NaN\<close>.  The object \<^verbatim>\<open>buckets\<close> lists its keys in the order of their first
  insertion, so it is an association list; \<open>bump\<close> is the statement
  \<^verbatim>\<open>buckets[key] = (buckets[key] || 0) + 1\<close>.  The initial \<^verbatim>\<open>dominantKey\<close>, the empty string, is
  \<open>None\<close>; splitting it gives one empty string, which \<^verbatim>\<open>parseInt\<close> turns into \<^verbatim>\<open>NaN\<close>, and the
  destructuring leaves \<^verbatim>\<open>g\<close> and \<^verbatim>\<open>b\<close> undefined.
\<close>

type_synonym bucket_key = "nat option \<times> nat option \<times> nat option"

definition bucketKey :: "nat option \<times> nat option \<times> nat option \<Rightarrow> bucket_key" where
  "bucketKey c = (case c of (r, g, b) \<Rightarrow>
     (map_option (\<lambda>v. v div 20) r, map_option (\<lambda>v. v div 20) g, map_option (\<lambda>v. v div 20) b))"

fun bump :: "bucket_key \<Rightarrow> (bucket_key \<times> nat) list \<Rightarrow> (bucket_key \<times> nat) list" where
  "bump key [] = [(key, 1)]"
| "bump key ((k, c) # buckets) =
     (if key = k then (k, c + 1) # buckets else (k, c) # bump key buckets)"

definition binCenter :: "nat option \<Rightarrow> jsval" where
  "binCenter v = (case v of Some k \<Rightarrow> Num (real (k * 20 + 10)) | None \<Rightarrow> NaN)"

definition getDominantColor :: "(nat option \<times> nat option \<times> nat option) list \<Rightarrow> rgb" where
  "getDominantColor colors =
     (let buckets = fold (\<lambda>c buckets. bump (bucketKey c) buckets) colors [];
          (maxCount, dominantKey) =
             fold (\<lambda>(key, count) (maxCount, dominantKey).
                     if count > maxCount then (count, Some key) else (maxCount, dominantKey))
               buckets (0, None)
      in case dominantKey of
           None \<Rightarrow> RGB NaN Undefined Undefined
         | Some (r, g, b) \<Rightarrow> RGB (binCenter r) (binCenter g) (binCenter b))"

section \<open>Region Grower: createImprovedMask\<close>

text \<open>
  Lines 725-732: the weighted distance, which inside \<^verbatim>\<open>createImprovedMask\<close> hides the
  module's \<^verbatim>\<open>colorDistance\<close>.
\<close>

definition weightedColorDistance ::
    "real option \<Rightarrow> real option \<Rightarrow> real option \<Rightarrow> real option \<Rightarrow> real option \<Rightarrow> real option
     \<Rightarrow> real option" where
  "weightedColorDistance r1 g1 b1 r2 g2 b2 =
     (case (r1, g1, b1, r2, g2, b2) of
        (Some r1, Some g1, Some b1, Some r2, Some g2, Some b2) \<Rightarrow>
          Some (sqrt (((r1 - r2) * 0.3)\<^sup>2 + ((g1 - g2) * 0.59)\<^sup>2 + ((b1 - b2) * 0.11)\<^sup>2))
      | _ \<Rightarrow> None)"

definition threshold :: real where
  "threshold = 50"

definition distToBackground :: "nat list \<Rightarrow> rgb \<Rightarrow> nat \<Rightarrow> real option" where
  "distToBackground data bgColor idx =
     weightedColorDistance (byte data (int (4 * idx))) (byte data (int (4 * idx) + 1))
       (byte data (int (4 * idx) + 2)) (num (red bgColor)) (num (green bgColor)) (num (blue bgColor))"

definition isOnBorder :: "nat \<Rightarrow> nat \<Rightarrow> nat \<Rightarrow> nat \<Rightarrow> bool" where
  "isOnBorder width height x y =
     (int x < 30 \<or> int x > int width - 30 \<or> int y < 30 \<or> int y > int height - 30)"

text \<open>
  The first pass, lines 722-750.  The loop visits \<^verbatim>\<open>i = 0, 4, 8, ...\<close> below \<^verbatim>\<open>data.length\<close> with
  \<^verbatim>\<open>idx = i / 4\<close>.  For \<^verbatim>\<open>width = 0\<close> the source computes \<^verbatim>\<open>x\<close> and \<^verbatim>\<open>y\<close> as \<^verbatim>\<open>NaN\<close> or \<^verbatim>\<open>Infinity\<close>;
  the mask is then empty and every store is ignored, whatever the test gives.
\<close>

definition firstPass :: "nat list \<Rightarrow> nat \<Rightarrow> nat \<Rightarrow> rgb \<Rightarrow> nat list" where
  "firstPass data width height bgColor =
     fold (\<lambda>idx mask'.
        (let x = idx mod width;
             y = idx div width;
             dist = distToBackground data bgColor idx;
             borderThreshold = (if isOnBorder width height x y then threshold * 1.8 else threshold)
         in if below dist borderThreshold then mask'[idx := 1] else mask'))
      [0..<(length data + 3) div 4] (replicate (width * height) 0)"

text \<open>
  The label of the first pass as section 4.2 of the specification words it, for comparison
  with \<open>firstPass\<close>: 1 (foreground) when the distance to the background colour is at least
  the adaptive threshold.
\<close>

definition spec_firstPass_label :: "nat list \<Rightarrow> nat \<Rightarrow> nat \<Rightarrow> rgb \<Rightarrow> nat \<Rightarrow> nat" where
  "spec_firstPass_label data width height bgColor idx =
     (case distToBackground data bgColor idx of
        Some d \<Rightarrow>
          if d \<ge> (if isOnBorder width height (idx mod width) (idx div width)
                   then threshold * 1.8 else threshold)
          then 1 else 0
      | None \<Rightarrow> 0)"

lemma pixel_index_bound:
  fixes width :: nat
  assumes "x < width" "y < height"
  shows "y * width + x < width * height"
proof -
  have "y * width + x < y * width + width" using assms(1) by simp
  also have "\<dots> = (Suc y) * width" by simp
  also have "\<dots> \<le> height * width" using assms(2) by (intro mult_le_mono1) simp
  finally show ?thesis by (simp add: mult.commute)
qed

text \<open>
  The flood fill of lines 753-786.  \<^verbatim>\<open>visited\<close> is an array of width x height flags that
  only this function reads and writes, here the set of the indices whose flag is set.
  The stack is a list with its top first: the four pushes of lines 780-783 leave
  \<^verbatim>\<open>[x, y - 1]\<close> on top.  \<open>start\<close> is the colour of the start pixel.
\<close>

function floodFillLoop ::
    "nat list \<Rightarrow> nat \<Rightarrow> nat \<Rightarrow> rgb \<Rightarrow> real option \<times> real option \<times> real option
     \<Rightarrow> (int \<times> int) list \<Rightarrow> nat set \<times> nat list \<Rightarrow> nat set \<times> nat list" where
  "floodFillLoop data width height bgColor start [] (visited, mask') = (visited, mask')"
| "floodFillLoop data width height bgColor start ((x, y) # stack) (visited, mask') =
     (if x < 0 \<or> x \<ge> int width \<or> y < 0 \<or> y \<ge> int height
         \<or> nat (y * int width + x) \<in> visited
      then floodFillLoop data width height bgColor start stack (visited, mask')
      else if below (weightedColorDistance
                       (byte data (4 * (y * int width + x)))
                       (byte data (4 * (y * int width + x) + 1))
                       (byte data (4 * (y * int width + x) + 2))
                       (fst start) (fst (snd start)) (snd (snd start)))
                 (threshold * 1.5)
              \<or> below (distToBackground data bgColor (nat (y * int width + x))) (threshold * 1.3)
      then floodFillLoop data width height bgColor start
             ((x, y - 1) # (x, y + 1) # (x - 1, y) # (x + 1, y) # stack)
             (insert (nat (y * int width + x)) visited, mask'[nat (y * int width + x) := 1])
      else floodFillLoop data width height bgColor start stack (visited, mask'))"
  by pat_completeness auto

text \<open>
  The loop ends: a pixel inside the buffer that is marked leaves the unvisited pixels, and
  every other iteration shortens the stack.
\<close>

lemma unvisited_decreases:
  fixes n :: nat
  assumes "idx < n" "idx \<notin> visited"
  shows "card ({..<n} - insert idx visited) < card ({..<n} - visited)"
proof (rule psubset_card_mono)
  show "finite ({..<n} - visited)" by simp
  show "{..<n} - insert idx visited \<subset> {..<n} - visited" using assms by auto
qed

lemma in_bounds_index:
  assumes "\<not> x < 0" "\<not> int width \<le> x" "\<not> y < 0" "\<not> int height \<le> y"
  shows "nat (y * int width + x) < width * height"
proof -
  have "nat x < width" "nat y < height" using assms by simp_all
  then have "nat y * width + nat x < width * height" by (rule pixel_index_bound)
  moreover have "nat (y * int width + x) = nat y * width + nat x"
    using assms by (simp add: nat_add_distrib nat_mult_distrib)
  ultimately show ?thesis by simp
qed

termination floodFillLoop
proof (relation "measure (\<lambda>(data, width, height, bgColor, start, stack, visited, mask').
                   5 * card ({..<width * height} - visited) + length stack)", goal_cases)
  case 1
  then show ?case by simp
next
  case (2 data width height bgColor start x y stack visited mask')
  then show ?case by simp
next
  case (3 data width height bgColor start x y stack visited mask')
  then have "nat (y * int width + x) < width * height" "nat (y * int width + x) \<notin> visited"
    using in_bounds_index [of x width y height] by simp_all
  then have "card ({..<width * height} - insert (nat (y * int width + x)) visited)
               < card ({..<width * height} - visited)"
    by (rule unvisited_decreases)
  then show ?case by simp
next
  case (4 data width height bgColor start x y stack visited mask')
  then show ?case by simp
qed

declare floodFillLoop.simps [simp del]

definition floodFill ::
    "nat list \<Rightarrow> nat \<Rightarrow> nat \<Rightarrow> rgb \<Rightarrow> int \<Rightarrow> int \<Rightarrow> nat set \<times> nat list \<Rightarrow> nat set \<times> nat list" where
  "floodFill data width height bgColor startX startY vm =
     (let startPixelIdx = (startY * int width + startX) * 4
      in floodFillLoop data width height bgColor
           (byte data startPixelIdx, byte data (startPixelIdx + 1), byte data (startPixelIdx + 2))
           [(startX, startY)] vm)"

text \<open>
  The seeding loops of lines 789-801.  \<^verbatim>\<open>for (let x = 0; x < width; x += borderStep)\<close> visits
  the multiples of \<^verbatim>\<open>borderStep\<close> below \<^verbatim>\<open>width\<close>.  A flood fill starts where the mask, as the
  earlier fills have left it, holds 1.
\<close>

definition borderStep :: "nat \<Rightarrow> nat \<Rightarrow> nat" where
  "borderStep width height = max 5 (min width height div 20)"

definition strided :: "nat \<Rightarrow> nat \<Rightarrow> nat list" where
  "strided n step = filter (\<lambda>x. x mod step = 0) [0..<n]"

definition seedFill ::
    "nat list \<Rightarrow> nat \<Rightarrow> nat \<Rightarrow> rgb \<Rightarrow> int \<Rightarrow> int \<Rightarrow> int \<Rightarrow> nat set \<times> nat list \<Rightarrow> nat set \<times> nat list" where
  "seedFill data width height bgColor seedIdx startX startY vm =
     (if rd (snd vm) seedIdx = Some 1 then floodFill data width height bgColor startX startY vm
      else vm)"

definition floodFromBorders :: "nat list \<Rightarrow> nat \<Rightarrow> nat \<Rightarrow> rgb \<Rightarrow> nat list \<Rightarrow> nat list" where
  "floodFromBorders data width height bgColor mask' =
     (let visited = {};
          vm1 = fold (\<lambda>x vm.
                   seedFill data width height bgColor
                     ((int height - 1) * int width + int x) (int x) (int height - 1)
                     (seedFill data width height bgColor (int x) (int x) 0 vm))
                 (strided width (borderStep width height)) (visited, mask');
          vm2 = fold (\<lambda>y vm.
                   seedFill data width height bgColor
                     (int y * int width + (int width - 1)) (int width - 1) (int y)
                     (seedFill data width height bgColor (int y * int width) 0 (int y) vm))
                 (strided height (borderStep width height)) vm1
      in snd vm2)"

text \<open>
  The second pass, lines 804-832, which reads and writes the one mask.  For \<^verbatim>\<open>width = 0\<close> the
  source has \<^verbatim>\<open>x = NaN\<close> and the test \<^verbatim>\<open>x > 0\<close> fails; here \<open>x < width - 1\<close> fails.
\<close>

definition secondPass :: "nat list \<Rightarrow> nat \<Rightarrow> nat \<Rightarrow> rgb \<Rightarrow> nat list \<Rightarrow> nat list" where
  "secondPass data width height bgColor mask' =
     fold (\<lambda>idx mask'.
        if rd mask' (int idx) = Some 1 then mask'
        else
          (let dist = distToBackground data bgColor idx;
               x = int (idx mod width);
               y = int (idx div width)
           in if x > 0 \<and> x < int width - 1 \<and> y > 0 \<and> y < int height - 1
              then (let neighbors = [rd mask' ((y - 1) * int width + x),
                                     rd mask' ((y + 1) * int width + x),
                                     rd mask' (y * int width + (x - 1)),
                                     rd mask' (y * int width + (x + 1))];
                        bgNeighbors = length (filter (\<lambda>v. v = Some 1) neighbors)
                    in if bgNeighbors \<ge> 3 \<and> below dist (threshold * 1.5) then mask'[idx := 1]
                       else if below dist (threshold * 0.8) then mask'[idx := 1]
                       else mask')
              else mask'))
      [0..<(length data + 3) div 4] mask'"

definition createImprovedMask :: "nat list \<Rightarrow> nat \<Rightarrow> nat \<Rightarrow> rgb \<Rightarrow> nat list" where
  "createImprovedMask data width height bgColor =
     secondPass data width height bgColor
       (floodFromBorders data width height bgColor (firstPass data width height bgColor))"

section \<open>The heuristic path: getBorderColors to applyMaskWithFeathering\<close>

text \<open>
  Lines 654-665 of \<^verbatim>\<open>improvedAlgorithmBackgroundRemoval\<close>, from the decoded image to the image
  written back to the canvas.  An exception of \<^verbatim>\<open>refineAlgorithmMask\<close> ends the computation.
\<close>

definition improvedAlgorithm ::
    "edge_detector option \<Rightarrow> nat list \<Rightarrow> nat \<Rightarrow> nat \<Rightarrow> error + nat list" where
  "improvedAlgorithm detectImageEdges data width height =
     (let borderColors = getBorderColors data width height;
          bgColor = getDominantColor borderColors;
          mask' = createImprovedMask data width height bgColor
      in case refineAlgorithmMask detectImageEdges data mask' width height of
           Inl e \<Rightarrow> Inl e
         | Inr refinedMask \<Rightarrow> Inr (applyMaskWithFeathering data refinedMask width height))"

section \<open>Matte Estimator: sampleFgBgColors and computeAlphaFromColors\<close>













section \<open>Feathering: createDistanceMap and applyMaskWithSmoothAlpha\<close>

text \<open>
  An entry of the \<^verbatim>\<open>Float32Array\<close> of distances is a number or \<^verbatim>\<open>Infinity\<close>.  \<open>dless\<close> is \<^verbatim>\<open><\<close> and
  \<open>dmin\<close> is \<^verbatim>\<open>Math.min\<close>; \<open>dplus\<close> is the sum \<^verbatim>\<open>distances[nIdx] + Math.sqrt(dx * dx + dy * dy)\<close>
  of line 547, a double, \<open>stepLength\<close> is its second operand, and \<open>toFloat32\<close> is the
  rounding of a number that is stored in the array.
\<close>

datatype distance = Finite real | Infinity

fun dplus :: "distance \<Rightarrow> real \<Rightarrow> distance" where
  "dplus (Finite a) r = Finite (fl64 (a + r))"
| "dplus Infinity r = Infinity"

fun dless :: "distance \<Rightarrow> distance \<Rightarrow> bool" where
  "dless (Finite a) (Finite b) = (a < b)"
| "dless (Finite a) Infinity = True"
| "dless Infinity d = False"

definition dmin :: "distance \<Rightarrow> distance \<Rightarrow> distance" where
  "dmin a b = (if dless b a then b else a)"

fun toFloat32 :: "distance \<Rightarrow> distance" where
  "toFloat32 (Finite a) = Finite (fl32 a)"
| "toFloat32 Infinity = Infinity"

definition stepLength :: "int \<Rightarrow> int \<Rightarrow> real" where
  "stepLength dx dy = fl64 (sqrt (real_of_int (dx * dx + dy * dy)))"

text \<open>
  Lines 517-532: a pixel holding 255 is an edge when one of its eight neighbours inside
  the buffer holds 0.
\<close>

definition isEdge :: "nat list \<Rightarrow> nat \<Rightarrow> nat \<Rightarrow> nat \<Rightarrow> nat \<Rightarrow> bool" where
  "isEdge mask' width height y x =
     list_ex (\<lambda>(dy, dx).
        \<not> (dx = 0 \<and> dy = 0)
        \<and> int y + dy \<ge> 0 \<and> int y + dy < int height \<and> int x + dx \<ge> 0 \<and> int x + dx < int width
        \<and> rd mask' ((int y + dy) * int width + (int x + dx)) = Some 0)
      (List.product [-1..1] [-1..1])"

text \<open>
  Lines 543-551: the smallest \<^verbatim>\<open>distances[nIdx] + Math.sqrt(dx * dx + dy * dy)\<close> over the 3x3
  window, starting from \<^verbatim>\<open>Infinity\<close>; a neighbour outside the array gives \<^verbatim>\<open>NaN\<close>, which is never
  smaller.  The pass updates \<^verbatim>\<open>distances\<close> in place, so a pixel sees the new values of the
  pixels before it.
\<close>

definition minDist :: "distance list \<Rightarrow> nat \<Rightarrow> nat \<Rightarrow> nat \<Rightarrow> distance" where
  "minDist distances width y x =
     fold (\<lambda>(dy, dx) minDist.
        (case rd distances ((int y + dy) * int width + (int x + dx)) of
           None \<Rightarrow> minDist
         | Some d \<Rightarrow>
             (let dist = dplus d (stepLength dx dy)
              in if dless dist minDist then dist else minDist)))
      (List.product [-1..1] [-1..1]) Infinity"

definition relax :: "nat list \<Rightarrow> nat \<Rightarrow> nat \<Rightarrow> nat \<Rightarrow> distance list \<Rightarrow> distance list" where
  "relax mask' width y x distances =
     (if rd mask' (int (y * width + x)) = Some 255
         \<and> rd distances (int (y * width + x)) \<noteq> Some (Finite 0)
      then distances[y * width + x :=
             toFloat32 (dmin (distances ! (y * width + x)) (minDist distances width y x))]
      else distances)"

definition createDistanceMap :: "nat list \<Rightarrow> nat \<Rightarrow> nat \<Rightarrow> distance list" where
  "createDistanceMap mask' width height =
     (let distances = replicate (length mask') Infinity;
          seeded = fold (\<lambda>y. fold (\<lambda>x distances.
                     if rd mask' (int (y * width + x)) = Some 255 \<and> isEdge mask' width height y x
                     then distances[y * width + x := Finite 0] else distances)
                   [0..<width]) [0..<height] distances
      in fold (\<lambda>iter. fold (\<lambda>y. fold (\<lambda>x distances. relax mask' width y x distances)
                   [1..<width - 1]) [1..<height - 1])
           [0..<5] seeded)"

text \<open>
  Lines 484-504.  \<^verbatim>\<open>distance < featherRadius\<close> is false for \<^verbatim>\<open>Infinity\<close> and for \<^verbatim>\<open>undefined\<close>.
  The factor \<^verbatim>\<open>alpha\<close> of line 499 and its product with the old alpha are doubles, and
  \<^verbatim>\<open>0.3\<close> and \<^verbatim>\<open>0.7\<close> are the doubles nearest to these decimals.
\<close>

definition featherRadius :: real where
  "featherRadius = 2"

definition applyMaskWithSmoothAlpha :: "nat list \<Rightarrow> nat list \<Rightarrow> nat \<Rightarrow> nat \<Rightarrow> nat list" where
  "applyMaskWithSmoothAlpha imageData mask' width height =
     (let distanceMap = createDistanceMap mask' width height
      in fold (\<lambda>idx imageData.
           if rd mask' (int idx) = Some 0 then imageData[4 * idx + 3 := 0]
           else (case rd distanceMap (int idx) of
                   Some (Finite distance) \<Rightarrow>
                     if distance < featherRadius
                     then (let alpha = min 1 (fl64 (fl64 (fl64 (distance / featherRadius)
                                                              * fl64 0.3) + fl64 0.7))
                           in if 4 * idx + 3 < length imageData
                              then imageData[4 * idx + 3 :=
                                     u8clamp \<lfloor>fl64 (real (imageData ! (4 * idx + 3)) * alpha)\<rfloor>]
                              else imageData)
                     else imageData
                 | _ \<Rightarrow> imageData))
         [0..<(length imageData + 3) div 4] imageData)"

section \<open>The fallback chain: removeBackground\<close>

text \<open>
  A promise settles with a value, settles with an error (here its message, empty when the
  rejection carries none), or never settles.  The network call, the BodyPix model and the
  decoding and encoding of images are outside the program; what they do is given by an
  environment:
  \<^item> \<open>realBackgroundRemoval\<close>: the outcome of the call of that name (lines 953-1015);
  \<^item> \<open>bodyPixAttempt\<close>: the outcome of the \<^verbatim>\<open>try\<close> block of \<^verbatim>\<open>clientSideBackgroundRemoval\<close>
    (lines 60-118), which loads the model, segments and mattes the image;
  \<^item> \<open>imageLoad\<close>: whether the \<^verbatim>\<open>Image\<close> of \<^verbatim>\<open>improvedAlgorithmBackgroundRemoval\<close> fires
    \<^verbatim>\<open>onload\<close> (with the decoded pixels), \<^verbatim>\<open>onerror\<close>, or neither;
  \<^item> \<open>toDataURL\<close>: the encoding of the pixels written back to the canvas;
  \<^item> \<open>boundDetectImageEdges\<close>: what the identifier \<^verbatim>\<open>detectImageEdges\<close> is bound to.
\<close>

datatype 'a promise = Resolved 'a | Rejected string | Pending

datatype image_load = Loaded "nat list" nat nat | LoadError string | NeverLoaded

record env =
  realBackgroundRemoval :: "string promise"
  bodyPixAttempt :: "string promise"
  imageLoad :: image_load
  toDataURL :: "nat list \<Rightarrow> nat \<Rightarrow> nat \<Rightarrow> string"
  boundDetectImageEdges :: "edge_detector option"

text \<open>
  Lines 638-674.  The promise is resolved at the end of the \<^verbatim>\<open>onload\<close> handler and rejected
  by \<^verbatim>\<open>onerror\<close>.  An exception thrown inside the \<^verbatim>\<open>onload\<close> handler is not caught by the
  promise: the handler ends without calling \<^verbatim>\<open>resolve\<close> or \<^verbatim>\<open>reject\<close>, and the promise never
  settles.
\<close>

definition improvedAlgorithmBackgroundRemoval :: "env \<Rightarrow> string promise" where
  "improvedAlgorithmBackgroundRemoval e =
     (case imageLoad e of
        Loaded data width height \<Rightarrow>
          (case improvedAlgorithm (boundDetectImageEdges e) data width height of
             Inl exception \<Rightarrow> Pending
           | Inr processed \<Rightarrow> Resolved (toDataURL e processed width height))
      | LoadError message \<Rightarrow> Rejected message
      | NeverLoaded \<Rightarrow> Pending)"

text \<open>Lines 59-124: the \<^verbatim>\<open>catch\<close> returns the promise of the heuristic path.\<close>

definition clientSideBackgroundRemoval :: "env \<Rightarrow> string promise" where
  "clientSideBackgroundRemoval e =
     (case bodyPixAttempt e of
        Resolved url \<Rightarrow> Resolved url
      | Rejected error \<Rightarrow> improvedAlgorithmBackgroundRemoval e
      | Pending \<Rightarrow> Pending)"

text \<open>
  Lines 1023-1040: when the fallback is rejected too, the error thrown carries the message
  of the first error, or the fixed text when that message is empty.
\<close>

definition removeBackground :: "env \<Rightarrow> string promise" where
  "removeBackground e =
     (case realBackgroundRemoval e of
        Resolved url \<Rightarrow> Resolved url
      | Rejected error \<Rightarrow>
          (case clientSideBackgroundRemoval e of
             Resolved url \<Rightarrow> Resolved url
           | Rejected fallbackError \<Rightarrow>
               Rejected (if error \<noteq> [] then error
                         else ''Failed to remove background. Please try again.'')
           | Pending \<Rightarrow> Pending)
      | Pending \<Rightarrow> Pending)"

text \<open>
  An environment in which the network call is rejected, the BodyPix model cannot be loaded,
  the image decodes to one grey pixel, and the module is as the source file has it, with
  \<^verbatim>\<open>detectImageEdges\<close> unbound.
\<close>

definition offline_env :: env where
  "offline_env =
     \<lparr>realBackgroundRemoval =
        Rejected ''Network error: Could not connect to remove.bg API. Please check your internet connection.'',
      bodyPixAttempt = Rejected ''Failed to load background removal model'',
      imageLoad = Loaded [200, 200, 200, 255] 1 1,
      toDataURL = (\<lambda>data width height. ''data:image/png;base64,''),
      boundDetectImageEdges = None\<rparr>"

section \<open>Notions used in the statements and the proofs\<close>

text \<open>
  Many loops of the source walk over pixels and, where a test on arrays they do not write
  holds, store one value at the pixel's index.  \<open>upd_loop\<close> names that shape so that the
  facts below apply to each of them.
\<close>

definition upd_loop :: "('p \<Rightarrow> bool) \<Rightarrow> ('p \<Rightarrow> nat) \<Rightarrow> ('p \<Rightarrow> 'a) \<Rightarrow> 'p list \<Rightarrow> 'a list \<Rightarrow> 'a list" where
  "upd_loop P ix V ps acc = fold (\<lambda>p acc. if P p then acc[ix p := V p] else acc) ps acc"

definition cell_loop :: "('p \<Rightarrow> 'a \<Rightarrow> 'a) \<Rightarrow> ('p \<Rightarrow> nat) \<Rightarrow> 'p list \<Rightarrow> 'a list \<Rightarrow> 'a list" where
  "cell_loop G ix ps acc = fold (\<lambda>p acc. acc[ix p := G p (acc ! ix p)]) ps acc"

text \<open>
  What one turn of the loop of \<^verbatim>\<open>applyMaskWithFeathering\<close> makes of the alpha \<open>a\<close> of the pixel
  \<open>idx\<close>.
\<close>

definition featheredAlpha :: "nat list \<Rightarrow> nat \<Rightarrow> nat \<Rightarrow> nat" where
  "featheredAlpha mask' idx a =
     (case rd mask' (int idx) of
        None \<Rightarrow> a
      | Some m \<Rightarrow> if m = 0 then 0
                  else if m < 255 then u8clamp \<lfloor>fl64 (real a * fl64 (real m / 255))\<rfloor>
                  else a)"

definition bucketsOf :: "(nat option \<times> nat option \<times> nat option) list \<Rightarrow> (bucket_key \<times> nat) list" where
  "bucketsOf colors = fold (\<lambda>c buckets. bump (bucketKey c) buckets) colors []"

definition dominantScan :: "(bucket_key \<times> nat) list \<Rightarrow> nat \<times> bucket_key option \<Rightarrow> nat \<times> bucket_key option" where
  "dominantScan buckets md =
     fold (\<lambda>(key, count) (maxCount, dominantKey).
             if count > maxCount then (count, Some key) else (maxCount, dominantKey)) buckets md"

text \<open>
  An image of one colour: every pixel holds the bytes \<open>r\<close>, \<open>g\<close>, \<open>b\<close> in its colour channels.
\<close>

definition uniform :: "nat list \<Rightarrow> nat \<Rightarrow> nat \<Rightarrow> nat \<Rightarrow> nat \<Rightarrow> nat \<Rightarrow> bool" where
  "uniform data width height r g b \<longleftrightarrow>
     length data = 4 * width * height \<and> r \<le> 255 \<and> g \<le> 255 \<and> b \<le> 255
     \<and> (\<forall>k < width * height.
           data ! (k * 4) = r \<and> data ! (k * 4 + 1) = g \<and> data ! (k * 4 + 2) = b)"





text \<open>
  Lines 499-500 of \<^verbatim>\<open>applyMaskWithSmoothAlpha\<close>: the alpha \<open>a\<close> times min(1, distance / 2 x 0.3 + 0.7)
  in doubles, rounded down and stored as a byte; and what one turn of the loop of lines
  490-503 makes of the alpha \<open>a\<close> of the pixel \<open>idx\<close>.
\<close>

definition feathered :: "nat \<Rightarrow> real \<Rightarrow> nat" where
  "feathered a distance =
     u8clamp \<lfloor>fl64 (real a * min 1 (fl64 (fl64 (fl64 (distance / 2) * fl64 0.3) + fl64 0.7)))\<rfloor>"

definition smoothAlpha :: "nat list \<Rightarrow> distance list \<Rightarrow> nat \<Rightarrow> nat \<Rightarrow> nat" where
  "smoothAlpha mask' distanceMap idx a =
     (if rd mask' (int idx) = Some 0 then 0
      else (case rd distanceMap (int idx) of
              Some (Finite distance) \<Rightarrow> if distance < 2 then feathered a distance else a
            | _ \<Rightarrow> a))"









text \<open>
  The double nearest to the square root of 2, which is what \<^verbatim>\<open>Math.sqrt(2)\<close> returns, and
  the single-precision number nearest to that double, which is what a \<^verbatim>\<open>Float32Array\<close> keeps
  of it.  \<open>dle\<close> is \<^verbatim>\<open><=\<close> on distances.
\<close>

definition sqrt2_double :: real where
  "sqrt2_double = 6369051672525773 / 2 ^ 52"

definition sqrt2_single :: real where
  "sqrt2_single = 11863283 / 2 ^ 23"

definition dle :: "distance \<Rightarrow> distance \<Rightarrow> bool" where
  "dle a b \<longleftrightarrow> \<not> dless b a"

text \<open>
  An edge pixel is a pixel that \<^verbatim>\<open>createDistanceMap\<close> gives the distance 0 in its first
  loop: it holds 255 and one of its eight neighbours inside the buffer holds 0.
  \<open>nearDistance\<close> is the distance below the feather radius that the pixel \<open>(x, y)\<close> ends with:
  0 for an edge pixel; for a pixel that holds 255, is no edge pixel and lies off the
  outermost rows and columns, 1 when one of its four direct neighbours is an edge pixel,
  and otherwise the single-precision square root of 2 when one of its four diagonal
  neighbours is an edge pixel; no such distance (\<open>None\<close>) for every other pixel.
\<close>

definition edgePixel :: "nat list \<Rightarrow> nat \<Rightarrow> nat \<Rightarrow> nat \<Rightarrow> nat \<Rightarrow> bool" where
  "edgePixel mask' width height y x \<longleftrightarrow>
     rd mask' (int (y * width + x)) = Some 255 \<and> isEdge mask' width height y x"

definition edgeAmong ::
    "nat list \<Rightarrow> nat \<Rightarrow> nat \<Rightarrow> nat \<Rightarrow> nat \<Rightarrow> (int \<times> int) list \<Rightarrow> bool" where
  "edgeAmong mask' width height y x offsets =
     list_ex (\<lambda>(dy, dx). edgePixel mask' width height (nat (int y + dy)) (nat (int x + dx)))
       offsets"

definition nearDistance :: "nat list \<Rightarrow> nat \<Rightarrow> nat \<Rightarrow> nat \<Rightarrow> nat \<Rightarrow> real option" where
  "nearDistance mask' width height y x =
     (if edgePixel mask' width height y x then Some 0
      else if rd mask' (int (y * width + x)) = Some 255
              \<and> 1 \<le> x \<and> x + 1 < width \<and> 1 \<le> y \<and> y + 1 < height
      then (if edgeAmong mask' width height y x [(-1, 0), (0, -1), (0, 1), (1, 0)] then Some 1
            else if edgeAmong mask' width height y x [(-1, -1), (-1, 1), (1, -1), (1, 1)]
            then Some sqrt2_single
            else None)
      else None)"

text \<open>
  What the array of distances holds for a pixel: \<open>settled\<close> when it holds the near distance
  of the pixel, or a distance that is not below 2 where the pixel has no near distance;
  \<open>admissible\<close> when it holds that or still holds \<^verbatim>\<open>Infinity\<close> for a pixel that the
  propagation has to reach.  \<open>relaxInvariant\<close> is the invariant of the propagation loops:
  every pixel is admissible and every pixel of \<open>V\<close> is settled.  \<open>cand\<close> is the candidate
  distance that the neighbour at offset \<open>c = (dy, dx)\<close> offers in lines 546-547.
\<close>

definition admissible :: "nat list \<Rightarrow> nat \<Rightarrow> nat \<Rightarrow> distance list \<Rightarrow> nat \<Rightarrow> nat \<Rightarrow> bool" where
  "admissible mask' width height distances y x \<longleftrightarrow>
     (case nearDistance mask' width height y x of
        Some d \<Rightarrow> distances ! (y * width + x) = Finite d
                  \<or> d \<noteq> 0 \<and> distances ! (y * width + x) = Infinity
      | None \<Rightarrow> dle (Finite 2) (distances ! (y * width + x)))"

definition settled :: "nat list \<Rightarrow> nat \<Rightarrow> nat \<Rightarrow> distance list \<Rightarrow> nat \<Rightarrow> nat \<Rightarrow> bool" where
  "settled mask' width height distances y x \<longleftrightarrow>
     (case nearDistance mask' width height y x of
        Some d \<Rightarrow> distances ! (y * width + x) = Finite d
      | None \<Rightarrow> dle (Finite 2) (distances ! (y * width + x)))"

definition cand :: "distance list \<Rightarrow> nat \<Rightarrow> nat \<Rightarrow> nat \<Rightarrow> int \<times> int \<Rightarrow> distance" where
  "cand distances width y x c =
     (case rd distances ((int y + fst c) * int width + (int x + snd c)) of
        None \<Rightarrow> Infinity
      | Some d \<Rightarrow> dplus d (stepLength (snd c) (fst c)))"

definition relaxInvariant ::
    "nat list \<Rightarrow> nat \<Rightarrow> nat \<Rightarrow> (nat \<times> nat) set \<Rightarrow> distance list \<Rightarrow> bool" where
  "relaxInvariant mask' width height V D \<longleftrightarrow>
     length D = width * height
     \<and> (\<forall>qy < height. \<forall>qx < width.
           admissible mask' width height D qy qx
           \<and> ((qy, qx) \<in> V \<longrightarrow> settled mask' width height D qy qx))"

text \<open>
  The alpha that \<^verbatim>\<open>applyMaskWithSmoothAlpha\<close> leaves at the pixel \<open>(x, y)\<close> whose alpha was \<open>a\<close>,
  by the mask alone.
\<close>

definition nearAlpha :: "nat list \<Rightarrow> nat \<Rightarrow> nat \<Rightarrow> nat \<Rightarrow> nat \<Rightarrow> nat \<Rightarrow> nat" where
  "nearAlpha mask' width height y x a =
     (if mask' ! (y * width + x) = 0 then 0
      else (case nearDistance mask' width height y x of
              Some d \<Rightarrow> feathered a d
            | None \<Rightarrow> a))"

text \<open>
  The distance to the boundary as the specification words it, squared: the least
  squared Euclidean distance from the pixel \<open>(x, y)\<close> to a pixel of the set \<open>target\<close>, which
  is the set of the edge pixels or the set of the background pixels.  Then a 4x4 mask
  whose only background pixel is the corner \<open>(0, 0)\<close>, and a 4x4 image whose pixels all
  have the alpha 90.
\<close>

definition sqDistanceTo :: "(nat \<Rightarrow> nat \<Rightarrow> bool) \<Rightarrow> nat \<Rightarrow> nat \<Rightarrow> nat \<Rightarrow> nat \<Rightarrow> int" where
  "sqDistanceTo target width height y x =
     Min (set (map (\<lambda>(ty, tx). (int ty - int y)\<^sup>2 + (int tx - int x)\<^sup>2)
                 (filter (\<lambda>(ty, tx). target ty tx) (List.product [0..<height] [0..<width]))))"

definition corner_mask :: "nat list" where
  "corner_mask = [0, 255, 255, 255, 255, 255, 255, 255, 255, 255, 255, 255, 255, 255, 255, 255]"

definition corner_image :: "nat list" where
  "corner_image =
     [0, 0, 0, 90, 0, 0, 0, 90, 0, 0, 0, 90, 0, 0, 0, 90,
      0, 0, 0, 90, 0, 0, 0, 90, 0, 0, 0, 90, 0, 0, 0, 90,
      0, 0, 0, 90, 0, 0, 0, 90, 0, 0, 0, 90, 0, 0, 0, 90,
      0, 0, 0, 90, 0, 0, 0, 90, 0, 0, 0, 90, 0, 0, 0, 90]"

section \<open>Facts about loops that update one cell per iteration\<close>

lemma fold_nest_product:
  "fold (\<lambda>y. fold (\<lambda>x. f y x) xs) ys s = fold (\<lambda>(y, x). f y x) (List.product ys xs) s"
proof (induction ys arbitrary: s)
  case Nil
  then show ?case by simp
next
  case (Cons y ys)
  have "fold (\<lambda>(y, x). f y x) (map (Pair y) xs) s = fold (f y) xs s"
    by (simp add: fold_map comp_def)
  with Cons show ?case by simp
qed

lemma upd_loop_Nil [simp]: "upd_loop P ix V [] acc = acc"
  by (simp add: upd_loop_def)

lemma upd_loop_Cons [simp]:
  "upd_loop P ix V (q # ps) acc = upd_loop P ix V ps (if P q then acc[ix q := V q] else acc)"
  by (simp add: upd_loop_def)

lemma upd_loop_length [simp]: "length (upd_loop P ix V ps acc) = length acc"
  by (induction ps arbitrary: acc) auto

lemma upd_loop_other:
  "(\<And>p. p \<in> set ps \<Longrightarrow> P p \<Longrightarrow> ix p \<noteq> k) \<Longrightarrow> upd_loop P ix V ps acc ! k = acc ! k"
  by (induction ps arbitrary: acc) auto

lemma upd_loop_hit:
  assumes "p \<in> set ps" "P p" "ix p < length acc" "distinct (map ix ps)"
  shows "upd_loop P ix V ps acc ! ix p = V p"
  using assms
proof (induction ps arbitrary: acc)
  case Nil
  then show ?case by simp
next
  case (Cons q ps)
  let ?acc' = "if P q then acc[ix q := V q] else acc"
  have len: "ix p < length ?acc'" using Cons.prems(3) by simp
  have dist: "distinct (map ix ps)" and fresh: "ix q \<notin> ix ` set ps"
    using Cons.prems(4) by simp_all
  show ?case
  proof (cases "p = q")
    case True
    have "\<And>r. r \<in> set ps \<Longrightarrow> ix r \<noteq> ix q"
    proof -
      fix r assume "r \<in> set ps"
      then have "ix r \<in> ix ` set ps" by (rule imageI)
      then show "ix r \<noteq> ix q" using fresh by metis
    qed
    then have "upd_loop P ix V ps ?acc' ! ix q = ?acc' ! ix q"
      using upd_loop_other [of ps P ix "ix q" V ?acc'] by blast
    also have "\<dots> = V q" using True Cons.prems(2,3) by simp
    finally show ?thesis using True by simp
  next
    case False
    then have "p \<in> set ps" using Cons.prems(1) by simp
    then have "upd_loop P ix V ps ?acc' ! ix p = V p"
      using Cons.prems(2) len dist by (rule Cons.IH)
    then show ?thesis by simp
  qed
qed

lemma upd_loop_miss:
  assumes "p \<in> set ps" "\<not> P p" "distinct (map ix ps)"
  shows "upd_loop P ix V ps acc ! ix p = acc ! ix p"
proof (rule upd_loop_other)
  fix q assume q: "q \<in> set ps" "P q"
  show "ix q \<noteq> ix p"
  proof
    assume "ix q = ix p"
    then have "q = p" using assms(1,3) q(1) by (meson distinct_map inj_onD)
    with q(2) assms(2) show False by simp
  qed
qed

lemma upd_loop_mem:
  "v \<in> set (upd_loop P ix V ps acc) \<Longrightarrow> v \<in> set acc \<or> (\<exists>p \<in> set ps. P p \<and> v = V p)"
proof (induction ps arbitrary: acc)
  case Nil
  then show ?case by simp
next
  case (Cons q ps)
  let ?acc' = "if P q then acc[ix q := V q] else acc"
  from Cons.prems have "v \<in> set (upd_loop P ix V ps ?acc')"
    by simp
  then have "v \<in> set ?acc' \<or> (\<exists>p \<in> set ps. P p \<and> v = V p)"
    by (rule Cons.IH)
  moreover have "v \<in> set ?acc' \<Longrightarrow> v \<in> set acc \<or> (P q \<and> v = V q)"
    using set_update_subset_insert [of acc "ix q" "V q"] by (auto split: if_splits)
  ultimately show ?case by auto
qed

lemma upd_loop_nest:
  "fold (\<lambda>y. fold (\<lambda>x acc. if P y x then acc[ix y x := V y x] else acc) xs) ys acc =
   upd_loop (\<lambda>p. P (fst p) (snd p)) (\<lambda>p. ix (fst p) (snd p)) (\<lambda>p. V (fst p) (snd p))
     (List.product ys xs) acc"
  unfolding fold_nest_product upd_loop_def by (simp add: case_prod_unfold)

lemma pixel_index_inj:
  fixes width :: nat
  assumes "x < width" "x' < width" "y * width + x = y' * width + x'"
  shows "y = y' \<and> x = x'"
proof -
  have "(y * width + x) div width = y" "(y' * width + x') div width = y'"
    using assms(1,2) by simp_all
  then have "y = y'" using assms(3) by simp
  with assms(3) show ?thesis by simp
qed

lemma count_three_values:
  "(\<And>v. v \<in> set t \<Longrightarrow> v = a \<or> v = b \<or> v = c) \<Longrightarrow> a \<noteq> b \<Longrightarrow> a \<noteq> c \<Longrightarrow> b \<noteq> c \<Longrightarrow>
   count_list t a + count_list t b + count_list t c = length t"
  by (induction t) auto

section \<open>Trimap Builder: values, conservation and the untouched border\<close>

lemma createTrimap_product:
  "createTrimap segmentationData width height =
     upd_loop (\<lambda>p. isNearBoundary (map (\<lambda>s. if s = 0 then 0 else 255) segmentationData)
                          width (fst p) (snd p))
       (\<lambda>p. fst p * width + snd p) (\<lambda>p. 128)
       (List.product [3..<height - 3] [3..<width - 3])
       (map (\<lambda>s. if s = 0 then 0 else 255) segmentationData)"
  unfolding createTrimap_def Let_def by (rule upd_loop_nest)

lemma createTrimap_length:
  "length (createTrimap segmentationData width height) = length segmentationData"
  unfolding createTrimap_product by simp

lemma createTrimap_values:
  assumes "v \<in> set (createTrimap segmentationData width height)"
  shows "v = 0 \<or> v = 128 \<or> v = 255"
proof -
  have "v \<in> set (map (\<lambda>s. if s = 0 then 0 else 255) segmentationData) \<or> v = 128"
    using upd_loop_mem [OF assms [unfolded createTrimap_product]] by blast
  then show ?thesis by auto
qed

lemma createTrimap_border:
  assumes "x < width" "y < height" "length segmentationData = width * height"
    and "x < 3 \<or> width \<le> x + 3 \<or> y < 3 \<or> height \<le> y + 3"
  shows "createTrimap segmentationData width height ! (y * width + x) =
           (if segmentationData ! (y * width + x) = 0 then 0 else 255)"
proof -
  have inb: "y * width + x < length segmentationData"
    using pixel_index_bound [OF assms(1,2)] assms(3) by simp
  have "\<And>p. p \<in> set (List.product [3..<height - 3] [3..<width - 3]) \<Longrightarrow>
          fst p * width + snd p \<noteq> y * width + x"
  proof -
    fix p assume p: "p \<in> set (List.product [3..<height - 3] [3..<width - 3])"
    then have "fst p \<in> set [3..<height - 3]" "snd p \<in> set [3..<width - 3]"
      by (simp_all add: mem_Times_iff)
    then have r: "3 \<le> fst p" "fst p + 3 < height" "3 \<le> snd p" "snd p + 3 < width"
      by auto
    show "fst p * width + snd p \<noteq> y * width + x"
    proof
      assume "fst p * width + snd p = y * width + x"
      then have "fst p = y \<and> snd p = x"
        using pixel_index_inj [of "snd p" width x "fst p" y] r assms(1) by simp
      with r assms(4) show False by linarith
    qed
  qed
  then have "createTrimap segmentationData width height ! (y * width + x) =
          map (\<lambda>s. if s = 0 then 0 else 255) segmentationData ! (y * width + x)"
    unfolding createTrimap_product by (intro upd_loop_other) blast
  with inb show ?thesis by simp
qed

text \<open>
  C5.  For a binary mask with one entry per pixel of a width x height buffer, every entry
  of the trimap is 0, 128 or 255; the numbers of entries holding 0, 128 and 255 add up to
  width x height; and a pixel within 3 of the buffer edge (x < 3, x \<ge> width - 3, y < 3 or
  y \<ge> height - 3) keeps the label converted from the mask, 0 for a mask value 0 and 255
  otherwise, so it is never 128.
\<close>

theorem createTrimap_three_values_conserved_border_kept:
  assumes "length segmentationData = width * height"
  shows "(\<forall>v \<in> set (createTrimap segmentationData width height). v = 0 \<or> v = 128 \<or> v = 255)
       \<and> count_list (createTrimap segmentationData width height) 0
         + count_list (createTrimap segmentationData width height) 128
         + count_list (createTrimap segmentationData width height) 255 = width * height
       \<and> (\<forall>x y. x < width \<and> y < height \<and> (x < 3 \<or> width \<le> x + 3 \<or> y < 3 \<or> height \<le> y + 3)
            \<longrightarrow> createTrimap segmentationData width height ! (y * width + x)
                  = (if segmentationData ! (y * width + x) = 0 then 0 else 255))"
proof (intro conjI)
  show "\<forall>v \<in> set (createTrimap segmentationData width height). v = 0 \<or> v = 128 \<or> v = 255"
    using createTrimap_values by blast
  have "count_list (createTrimap segmentationData width height) 0
         + count_list (createTrimap segmentationData width height) 128
         + count_list (createTrimap segmentationData width height) 255
        = length (createTrimap segmentationData width height)"
    by (rule count_three_values) (use createTrimap_values in auto)
  then show "count_list (createTrimap segmentationData width height) 0
         + count_list (createTrimap segmentationData width height) 128
         + count_list (createTrimap segmentationData width height) 255 = width * height"
    using assms by (simp add: createTrimap_length)
  show "\<forall>x y. x < width \<and> y < height \<and> (x < 3 \<or> width \<le> x + 3 \<or> y < 3 \<or> height \<le> y + 3)
            \<longrightarrow> createTrimap segmentationData width height ! (y * width + x)
                  = (if segmentationData ! (y * width + x) = 0 then 0 else 255)"
  proof (intro allI impI)
    fix x y
    assume h: "x < width \<and> y < height \<and> (x < 3 \<or> width \<le> x + 3 \<or> y < 3 \<or> height \<le> y + 3)"
    then show "createTrimap segmentationData width height ! (y * width + x)
                  = (if segmentationData ! (y * width + x) = 0 then 0 else 255)"
      using createTrimap_border [of x width y height segmentationData] assms by blast
  qed
qed

theorem createTrimap_three_values_conserved_border_kept_witness:
  "length (replicate 24 (0::nat) @ [1] @ replicate 24 0) = 7 * 7
   \<and> count_list (createTrimap (replicate 24 0 @ [1] @ replicate 24 0) 7 7) 0
     + count_list (createTrimap (replicate 24 0 @ [1] @ replicate 24 0) 7 7) 128
     + count_list (createTrimap (replicate 24 0 @ [1] @ replicate 24 0) 7 7) 255 = 7 * 7
   \<and> createTrimap (replicate 24 0 @ [1] @ replicate 24 0) 7 7 ! (6 * 7 + 2) = 0"
proof -
  let ?m = "replicate 24 (0::nat) @ [1] @ replicate 24 0"
  have len: "length ?m = 7 * 7" by simp
  note t = createTrimap_three_values_conserved_border_kept [OF len]
  have "(2::nat) < 7 \<and> (6::nat) < 7 \<and> ((2::nat) < 3 \<or> (7::nat) \<le> 2 + 3 \<or> (6::nat) < 3 \<or> (7::nat) \<le> 6 + 3)"
    by simp
  with t have "createTrimap ?m 7 7 ! (6 * 7 + 2) = (if ?m ! (6 * 7 + 2) = 0 then 0 else 255)"
    by blast
  moreover have "?m ! (6 * 7 + 2) = 0" by (simp add: nth_append)
  ultimately have "createTrimap ?m 7 7 ! (6 * 7 + 2) = 0" by simp
  with len t show ?thesis by blast
qed

section \<open>Loops over the pixels of a buffer\<close>

lemma pixel_index_distinct:
  fixes width :: nat
  assumes "distinct ys" "distinct xs" "\<And>x. x \<in> set xs \<Longrightarrow> x < width"
  shows "distinct (map (\<lambda>p. fst p * width + snd p) (List.product ys xs))"
proof -
  have "inj_on (\<lambda>p. fst p * width + snd p) (set (List.product ys xs))"
  proof (rule inj_onI)
    fix p q
    assume p: "p \<in> set (List.product ys xs)" and q: "q \<in> set (List.product ys xs)"
      and e: "fst p * width + snd p = fst q * width + snd q"
    have "snd p < width" "snd q < width"
      using p q assms(3) by (simp_all add: mem_Times_iff)
    then have "fst p = fst q \<and> snd p = snd q"
      using e pixel_index_inj [of "snd p" width "snd q" "fst p" "fst q"] by simp
    then show "p = q" by (simp add: prod_eq_iff)
  qed
  moreover have "distinct (List.product ys xs)"
    using assms(1,2) by (rule distinct_product)
  ultimately show ?thesis by (simp add: distinct_map)
qed

lemma upd_loop_pixel_in:
  fixes width :: nat
  assumes "y \<in> set ys" "x \<in> set xs" "distinct ys" "distinct xs"
    and "\<And>x. x \<in> set xs \<Longrightarrow> x < width" and "y * width + x < length acc"
  shows "upd_loop P (\<lambda>p. fst p * width + snd p) V (List.product ys xs) acc ! (y * width + x)
         = (if P (y, x) then V (y, x) else acc ! (y * width + x))"
proof -
  have d: "distinct (map (\<lambda>p. fst p * width + snd p) (List.product ys xs))"
    using assms(3,4,5) by (rule pixel_index_distinct)
  have m: "(y, x) \<in> set (List.product ys xs)" using assms(1,2) by simp
  show ?thesis
  proof (cases "P (y, x)")
    case True
    then show ?thesis
      using upd_loop_hit [of "(y, x)" "List.product ys xs" P "\<lambda>p. fst p * width + snd p" acc V]
        m d assms(6) by simp
  next
    case False
    then show ?thesis
      using upd_loop_miss [of "(y, x)" "List.product ys xs" P "\<lambda>p. fst p * width + snd p" V acc]
        m d by simp
  qed
qed

lemma upd_loop_pixel_out:
  fixes width :: nat
  assumes "y \<notin> set ys \<or> x \<notin> set xs" "x < width" "\<And>x. x \<in> set xs \<Longrightarrow> x < width"
  shows "upd_loop P (\<lambda>p. fst p * width + snd p) V (List.product ys xs) acc ! (y * width + x)
         = acc ! (y * width + x)"
proof (rule upd_loop_other)
  fix p assume p: "p \<in> set (List.product ys xs)"
  then have s: "fst p \<in> set ys" "snd p \<in> set xs" by (simp_all add: mem_Times_iff)
  show "fst p * width + snd p \<noteq> y * width + x"
  proof
    assume "fst p * width + snd p = y * width + x"
    then have "fst p = y \<and> snd p = x"
      using pixel_index_inj [of "snd p" width x "fst p" y] assms(2) assms(3) [OF s(2)] by simp
    with s assms(1) show False by blast
  qed
qed

lemma nested_if:
  "(if A then (if B then u else e) else e) = (if A \<and> B then u else e)"
  by simp

section \<open>Mask Refiner: erosion, then dilation\<close>

lemma erode_product:
  "erode mask' width height =
     upd_loop (\<lambda>p. (isBoundary mask' width (fst p) (snd p)
                     \<and> rd mask' (int (fst p * width + snd p)) = Some 1)
                   \<and> foregroundNeighbors mask' width (fst p) (snd p) < 5)
       (\<lambda>p. fst p * width + snd p) (\<lambda>p. 0)
       (List.product [1..<height - 1] [1..<width - 1]) mask'"
  unfolding erode_def nested_if by (rule upd_loop_nest)

lemma dilate_product:
  "dilate eroded width height =
     upd_loop (\<lambda>p. rd eroded (int (fst p * width + snd p)) = Some 0
                   \<and> 5 \<le> foregroundNeighbors eroded width (fst p) (snd p))
       (\<lambda>p. fst p * width + snd p) (\<lambda>p. 1)
       (List.product [1..<height - 1] [1..<width - 1]) eroded"
  unfolding dilate_def nested_if by (rule upd_loop_nest)

lemma erode_length [simp]: "length (erode mask' width height) = length mask'"
  unfolding erode_product by simp

lemma dilate_length [simp]: "length (dilate eroded width height) = length eroded"
  unfolding dilate_product by simp

lemma smoothMaskEdges_length [simp]:
  "length (smoothMaskEdges mask' width height) = length mask'"
  by (simp add: smoothMaskEdges_def)

lemma rd_in_range: "k < length a \<Longrightarrow> rd a (int k) = Some (a ! k)"
  by (simp add: rd_def)

lemma interior_range: "x \<in> set [c..<width - c] \<longleftrightarrow> c \<le> x \<and> x + c < width"
  by auto

lemma erode_pixel:
  assumes "length mask' = width * height" "x < width" "y < height"
  shows "erode mask' width height ! (y * width + x) =
           (if (1 \<le> x \<and> x + 1 < width \<and> 1 \<le> y \<and> y + 1 < height)
               \<and> isBoundary mask' width y x \<and> mask' ! (y * width + x) = 1
               \<and> foregroundNeighbors mask' width y x < 5
            then 0 else mask' ! (y * width + x))"
proof -
  have inb: "y * width + x < length mask'"
    using pixel_index_bound [OF assms(2,3)] assms(1) by simp
  show ?thesis
  proof (cases "y \<in> set [1..<height - 1] \<and> x \<in> set [1..<width - 1]")
    case True
    then have "erode mask' width height ! (y * width + x) =
        (if (isBoundary mask' width y x \<and> rd mask' (int (y * width + x)) = Some 1)
             \<and> foregroundNeighbors mask' width y x < 5
         then 0 else mask' ! (y * width + x))"
      unfolding erode_product using inb
      by (subst upd_loop_pixel_in) auto
    moreover have "1 \<le> x \<and> x + 1 < width \<and> 1 \<le> y \<and> y + 1 < height"
      using True by auto
    ultimately show ?thesis using rd_in_range [OF inb] by simp
  next
    case False
    then have "erode mask' width height ! (y * width + x) = mask' ! (y * width + x)"
      unfolding erode_product using assms(2)
      by (subst upd_loop_pixel_out) auto
    moreover have "\<not> (1 \<le> x \<and> x + 1 < width \<and> 1 \<le> y \<and> y + 1 < height)"
      using False by auto
    ultimately show ?thesis by auto
  qed
qed

lemma dilate_pixel:
  assumes "length eroded = width * height" "x < width" "y < height"
  shows "dilate eroded width height ! (y * width + x) =
           (if (1 \<le> x \<and> x + 1 < width \<and> 1 \<le> y \<and> y + 1 < height)
               \<and> eroded ! (y * width + x) = 0
               \<and> 5 \<le> foregroundNeighbors eroded width y x
            then 1 else eroded ! (y * width + x))"
proof -
  have inb: "y * width + x < length eroded"
    using pixel_index_bound [OF assms(2,3)] assms(1) by simp
  show ?thesis
  proof (cases "y \<in> set [1..<height - 1] \<and> x \<in> set [1..<width - 1]")
    case True
    then have "dilate eroded width height ! (y * width + x) =
        (if rd eroded (int (y * width + x)) = Some 0
             \<and> 5 \<le> foregroundNeighbors eroded width y x
         then 1 else eroded ! (y * width + x))"
      unfolding dilate_product using inb
      by (subst upd_loop_pixel_in) auto
    moreover have "1 \<le> x \<and> x + 1 < width \<and> 1 \<le> y \<and> y + 1 < height"
      using True by auto
    ultimately show ?thesis using rd_in_range [OF inb] by simp
  next
    case False
    then have "dilate eroded width height ! (y * width + x) = eroded ! (y * width + x)"
      unfolding dilate_product using assms(2)
      by (subst upd_loop_pixel_out) auto
    moreover have "\<not> (1 \<le> x \<and> x + 1 < width \<and> 1 \<le> y \<and> y + 1 < height)"
      using False by auto
    ultimately show ?thesis by auto
  qed
qed

text \<open>
  C8, as amended.  The Mask Refiner's smoothing is one erosion pass followed by one
  dilation pass that reads the eroded mask.  Both passes change only pixels off the
  outermost rows and columns, that is with 1 \<le> x < width - 1 and 1 \<le> y < height - 1, whose
  3x3 window has its nine cells inside the buffer.  In the erosion pass such a pixel
  becomes 0 when it is a boundary pixel holding 1 with fewer than 5 of the nine cells
  holding 1, and keeps its value otherwise; in the dilation pass such a pixel becomes 1
  when the eroded mask holds 0 there and at least 5 of the nine cells of the eroded mask
  hold 1, and keeps its eroded value otherwise.  Every pixel of the outermost rows and
  columns keeps its value in both passes.
\<close>

theorem smoothMaskEdges_erosion_then_dilation:
  assumes "length mask' = width * height" "x < width" "y < height"
  shows "smoothMaskEdges mask' width height = dilate (erode mask' width height) width height
       \<and> erode mask' width height ! (y * width + x) =
           (if (1 \<le> x \<and> x + 1 < width \<and> 1 \<le> y \<and> y + 1 < height)
               \<and> isBoundary mask' width y x \<and> mask' ! (y * width + x) = 1
               \<and> foregroundNeighbors mask' width y x < 5
            then 0 else mask' ! (y * width + x))
       \<and> smoothMaskEdges mask' width height ! (y * width + x) =
           (if (1 \<le> x \<and> x + 1 < width \<and> 1 \<le> y \<and> y + 1 < height)
               \<and> erode mask' width height ! (y * width + x) = 0
               \<and> 5 \<le> foregroundNeighbors (erode mask' width height) width y x
            then 1 else erode mask' width height ! (y * width + x))"
proof (intro conjI)
  show "smoothMaskEdges mask' width height = dilate (erode mask' width height) width height"
    by (simp add: smoothMaskEdges_def)
  show "erode mask' width height ! (y * width + x) =
           (if (1 \<le> x \<and> x + 1 < width \<and> 1 \<le> y \<and> y + 1 < height)
               \<and> isBoundary mask' width y x \<and> mask' ! (y * width + x) = 1
               \<and> foregroundNeighbors mask' width y x < 5
            then 0 else mask' ! (y * width + x))"
    using assms by (rule erode_pixel)
  have "length (erode mask' width height) = width * height" using assms(1) by simp
  then show "smoothMaskEdges mask' width height ! (y * width + x) =
           (if (1 \<le> x \<and> x + 1 < width \<and> 1 \<le> y \<and> y + 1 < height)
               \<and> erode mask' width height ! (y * width + x) = 0
               \<and> 5 \<le> foregroundNeighbors (erode mask' width height) width y x
            then 1 else erode mask' width height ! (y * width + x))"
    unfolding smoothMaskEdges_def using assms(2,3) by (rule dilate_pixel)
qed

theorem smoothMaskEdges_erosion_then_dilation_witness:
  "length [0, 0, 0, 0, 1, 0, 0, 0, 0 :: nat] = 3 * 3 \<and> (1::nat) < 3
   \<and> erode [0, 0, 0, 0, 1, 0, 0, 0, 0] 3 3 ! (1 * 3 + 1) = 0
   \<and> smoothMaskEdges [0, 0, 0, 0, 1, 0, 0, 0, 0] 3 3 ! (1 * 3 + 1) = 0"
proof -
  let ?m = "[0, 0, 0, 0, 1, 0, 0, 0, 0 :: nat]"
  have h: "length ?m = 3 * 3" "(1::nat) < 3" by simp_all
  note t = smoothMaskEdges_erosion_then_dilation [OF h(1) h(2) h(2)]
  have b: "isBoundary ?m 3 1 1" by code_simp
  have n: "foregroundNeighbors ?m 3 1 1 = 1" by code_simp
  have e: "erode ?m 3 3 ! (1 * 3 + 1) = 0" using t b n by simp
  have "smoothMaskEdges ?m 3 3 ! (1 * 3 + 1) = 0 \<or> smoothMaskEdges ?m 3 3 ! (1 * 3 + 1) = 1"
    using t e by (simp split: if_splits)
  moreover have "smoothMaskEdges ?m 3 3 ! (1 * 3 + 1) \<noteq> 1" by code_simp
  ultimately show ?thesis using h e by simp
qed

text \<open>
  C8 as stated fails on the outermost rows and columns.  In a 3x3 mask whose only 1 is
  the corner pixel, that pixel is a foreground boundary pixel with one foreground cell
  in its window, and the erosion pass leaves it 1.  In the 3x3 mask whose only 0 is the
  middle pixel of the top row, that pixel has five foreground cells in its window, and
  the dilation pass leaves it 0.
\<close>

theorem smoothMaskEdges_outer_pixels_counterexample:
  "erode [1, 0, 0, 0, 0, 0, 0, 0, 0] 3 3 ! (0 * 3 + 0) = 1
   \<and> spec_eroded_label [1, 0, 0, 0, 0, 0, 0, 0, 0] 3 3 0 0 = 0
   \<and> smoothMaskEdges [1, 0, 0, 0, 0, 0, 0, 0, 0] 3 3 ! (0 * 3 + 0) = 1
   \<and> dilate [1, 0, 1, 1, 1, 1, 1, 1, 1] 3 3 ! (0 * 3 + 1) = 0
   \<and> spec_dilated_label [1, 0, 1, 1, 1, 1, 1, 1, 1] 3 3 0 1 = 1"
  by code_simp

section \<open>Mask Refiner: the vote on edge pixels\<close>

lemma vote_if:
  "(if E then (if A then xs[i := a] else if B then xs[i := b] else xs) else xs)
   = (if E \<and> (A \<or> B) then xs[i := (if A then a else b)] else xs)"
  by simp

lemma refineEdges_product:
  "refineEdges edges mask' width height =
     upd_loop (\<lambda>p. onEdge edges (fst p * width + snd p)
                   \<and> (real (foregroundCount mask' width (fst p) (snd p))
                         > real (backgroundCount mask' width (fst p) (snd p)) * 1.5
                      \<or> real (backgroundCount mask' width (fst p) (snd p))
                         > real (foregroundCount mask' width (fst p) (snd p)) * 1.5))
       (\<lambda>p. fst p * width + snd p)
       (\<lambda>p. if real (foregroundCount mask' width (fst p) (snd p))
                 > real (backgroundCount mask' width (fst p) (snd p)) * 1.5 then 1 else 0)
       (List.product [2..<height - 2] [2..<width - 2]) mask'"
  unfolding refineEdges_def vote_if by (rule upd_loop_nest)

lemma refineEdges_length [simp]: "length (refineEdges edges mask' width height) = length mask'"
  unfolding refineEdges_product by simp

lemma refineEdges_pixel:
  assumes "length mask' = width * height" "x < width" "y < height"
  shows "refineEdges edges mask' width height ! (y * width + x) =
           (if (2 \<le> x \<and> x + 2 < width \<and> 2 \<le> y \<and> y + 2 < height) \<and> onEdge edges (y * width + x)
            then (if real (foregroundCount mask' width y x)
                      > real (backgroundCount mask' width y x) * 1.5 then 1
                  else if real (backgroundCount mask' width y x)
                      > real (foregroundCount mask' width y x) * 1.5 then 0
                  else mask' ! (y * width + x))
            else mask' ! (y * width + x))"
proof -
  have inb: "y * width + x < length mask'"
    using pixel_index_bound [OF assms(2,3)] assms(1) by simp
  show ?thesis
  proof (cases "y \<in> set [2..<height - 2] \<and> x \<in> set [2..<width - 2]")
    case True
    then have "refineEdges edges mask' width height ! (y * width + x) =
        (if onEdge edges (y * width + x)
            \<and> (real (foregroundCount mask' width y x) > real (backgroundCount mask' width y x) * 1.5
               \<or> real (backgroundCount mask' width y x) > real (foregroundCount mask' width y x) * 1.5)
         then (if real (foregroundCount mask' width y x)
                   > real (backgroundCount mask' width y x) * 1.5 then 1 else 0)
         else mask' ! (y * width + x))"
      unfolding refineEdges_product using inb
      by (subst upd_loop_pixel_in) auto
    moreover have "2 \<le> x \<and> x + 2 < width \<and> 2 \<le> y \<and> y + 2 < height"
      using True by auto
    ultimately show ?thesis by auto
  next
    case False
    then have "refineEdges edges mask' width height ! (y * width + x) = mask' ! (y * width + x)"
      unfolding refineEdges_product using assms(2)
      by (subst upd_loop_pixel_out) auto
    moreover have "\<not> (2 \<le> x \<and> x + 2 < width \<and> 2 \<le> y \<and> y + 2 < height)"
      using False by auto
    ultimately show ?thesis by auto
  qed
qed

text \<open>
  C4 as amended.  When a function is bound to \<^verbatim>\<open>detectImageEdges\<close>, the Mask Refiner takes
  its edge map from that function, which sees the image and not the mask.  For a mask with
  one entry per pixel, a pixel with 2 \<le> x < width - 2 and 2 \<le> y < height - 2 whose edge
  value is positive is relabelled by the vote over its 5x5 window: 1 when the cells holding
  1 number more than 1.5 times the others, 0 when the others number more than 1.5 times
  the cells holding 1, and its own label otherwise.  Every other pixel keeps its label.
  The relabelled mask is then smoothed and converted to 0 and 255.
\<close>

theorem refineAlgorithmMask_vote_on_detected_edges:
  assumes "length mask' = width * height" "x < width" "y < height"
  shows "refineAlgorithmMask (Some detect) imageData mask' width height =
           Inr (map (\<lambda>s. if s = 1 then 255 else 0)
                  (smoothMaskEdges (refineEdges (detect imageData width height) mask' width height)
                     width height))
       \<and> refineEdges (detect imageData width height) mask' width height ! (y * width + x) =
           (if (2 \<le> x \<and> x + 2 < width \<and> 2 \<le> y \<and> y + 2 < height)
               \<and> onEdge (detect imageData width height) (y * width + x)
            then (if real (foregroundCount mask' width y x)
                      > real (backgroundCount mask' width y x) * 1.5 then 1
                  else if real (backgroundCount mask' width y x)
                      > real (foregroundCount mask' width y x) * 1.5 then 0
                  else mask' ! (y * width + x))
            else mask' ! (y * width + x))"
proof
  show "refineAlgorithmMask (Some detect) imageData mask' width height =
           Inr (map (\<lambda>s. if s = 1 then 255 else 0)
                  (smoothMaskEdges (refineEdges (detect imageData width height) mask' width height)
                     width height))"
    by (simp add: refineAlgorithmMask_def)
  show "refineEdges (detect imageData width height) mask' width height ! (y * width + x) =
           (if (2 \<le> x \<and> x + 2 < width \<and> 2 \<le> y \<and> y + 2 < height)
               \<and> onEdge (detect imageData width height) (y * width + x)
            then (if real (foregroundCount mask' width y x)
                      > real (backgroundCount mask' width y x) * 1.5 then 1
                  else if real (backgroundCount mask' width y x)
                      > real (foregroundCount mask' width y x) * 1.5 then 0
                  else mask' ! (y * width + x))
            else mask' ! (y * width + x))"
    using assms by (rule refineEdges_pixel)
qed

lemma block_mask_counts:
  "foregroundCount block_mask 7 3 3 = 9"
  "backgroundCount block_mask 7 3 3 = 16"
  "spec_refined_label block_mask 7 3 3 = 1"
  by code_simp+

lemma dot_mask_counts:
  "foregroundCount dot_mask 7 3 3 = 1"
  "backgroundCount dot_mask 7 3 3 = 24"
  "spec_refined_label dot_mask 7 3 3 = 0"
  by code_simp+

lemma mask_lengths: "length block_mask = 7 * 7" "length dot_mask = 7 * 7"
  by (simp_all add: block_mask_def dot_mask_def)

lemma block_mask_vote:
  "refineEdges edges block_mask 7 7 ! (3 * 7 + 3) = (if onEdge edges (3 * 7 + 3) then 0 else 1)"
proof -
  have "block_mask ! (3 * 7 + 3) = 1" by (simp add: block_mask_def)
  then show ?thesis
    using refineEdges_pixel [OF mask_lengths(1), of 3 3 edges]
    by (simp add: block_mask_counts)
qed

lemma dot_mask_vote:
  "refineEdges edges dot_mask 7 7 ! (3 * 7 + 3) = (if onEdge edges (3 * 7 + 3) then 0 else 1)"
proof -
  have "dot_mask ! (3 * 7 + 3) = 1" by (simp add: dot_mask_def)
  then show ?thesis
    using refineEdges_pixel [OF mask_lengths(2), of 3 3 edges]
    by (simp add: dot_mask_counts)
qed

theorem refineAlgorithmMask_vote_on_detected_edges_witness:
  "length block_mask = 7 * 7 \<and> (3::nat) < 7
   \<and> refineEdges ((\<lambda>d w h. replicate (w * h) 1) (replicate 196 255) 7 7)
        block_mask 7 7 ! (3 * 7 + 3) = 0"
proof -
  have h: "length block_mask = 7 * 7" "(3::nat) < 7" by (simp_all add: mask_lengths)
  note t = refineAlgorithmMask_vote_on_detected_edges
    [OF h(1) h(2) h(2), of "\<lambda>d w h. replicate (w * h) 1" "replicate 196 255"]
  have e: "onEdge (replicate (7 * 7) 1) (3 * 7 + 3)" by (simp add: onEdge_def rd_def)
  from t e have "refineEdges ((\<lambda>d w h. replicate (w * h) 1) (replicate 196 255) 7 7)
                   block_mask 7 7 ! (3 * 7 + 3) = 0"
    by (simp add: block_mask_counts)
  with h show ?thesis by blast
qed

text \<open>
  C4 as stated fails.  The edge map of the code comes from the image alone, so it is the
  same for two masks over one image.  At the middle pixel of the block mask the stated
  edge map has no edge and the label must stay 1, while the code, if it votes there,
  writes 0; at the middle pixel of the single-pixel mask the stated edge map has an edge
  and the vote must give 0, while the code, if it does not vote there, leaves 1.
\<close>

theorem refineAlgorithmMask_edge_map_counterexample:
  "\<not> (\<exists>detect imageData.
        refineEdges ((detect :: edge_detector) imageData 7 7) block_mask 7 7 ! (3 * 7 + 3)
          = spec_refined_label block_mask 7 3 3
      \<and> refineEdges (detect imageData 7 7) dot_mask 7 7 ! (3 * 7 + 3)
          = spec_refined_label dot_mask 7 3 3)"
  unfolding block_mask_vote dot_mask_vote block_mask_counts dot_mask_counts
  by (auto split: if_splits)

section \<open>Loops that rewrite one cell per iteration from its own content\<close>

lemma cell_loop_Nil [simp]: "cell_loop G ix [] acc = acc"
  by (simp add: cell_loop_def)

lemma cell_loop_Cons [simp]:
  "cell_loop G ix (q # ps) acc = cell_loop G ix ps (acc[ix q := G q (acc ! ix q)])"
  by (simp add: cell_loop_def)

lemma cell_loop_length [simp]: "length (cell_loop G ix ps acc) = length acc"
  by (induction ps arbitrary: acc) auto

lemma cell_loop_other:
  "k \<notin> ix ` set ps \<Longrightarrow> cell_loop G ix ps acc ! k = acc ! k"
  by (induction ps arbitrary: acc) auto

lemma cell_loop_hit:
  assumes "p \<in> set ps" "ix p < length acc" "distinct (map ix ps)"
  shows "cell_loop G ix ps acc ! ix p = G p (acc ! ix p)"
  using assms
proof (induction ps arbitrary: acc)
  case Nil
  then show ?case by simp
next
  case (Cons q ps)
  let ?acc' = "acc[ix q := G q (acc ! ix q)]"
  have dist: "distinct (map ix ps)" and fresh: "ix q \<notin> ix ` set ps"
    using Cons.prems(3) by simp_all
  show ?case
  proof (cases "p = q")
    case True
    have "cell_loop G ix ps ?acc' ! ix q = ?acc' ! ix q"
      using fresh by (rule cell_loop_other)
    then show ?thesis using True Cons.prems(2) by simp
  next
    case False
    then have m: "p \<in> set ps" using Cons.prems(1) by simp
    then have "ix p \<in> ix ` set ps" by (rule imageI)
    then have ne: "ix p \<noteq> ix q" using fresh by metis
    have "ix p < length ?acc'" using Cons.prems(2) by simp
    with m have "cell_loop G ix ps ?acc' ! ix p = G p (?acc' ! ix p)"
      using dist by (rule Cons.IH)
    then show ?thesis using ne by simp
  qed
qed

section \<open>The heuristic path never writes a fractional alpha\<close>

lemma applyMaskWithFeathering_cell_loop:
  "applyMaskWithFeathering data mask' width height =
     cell_loop (featheredAlpha mask') (\<lambda>idx. 4 * idx + 3) [0..<(length data + 3) div 4] data"
proof -
  have "(\<lambda>idx data.
          (case rd mask' (int idx) of
             None \<Rightarrow> data
           | Some m \<Rightarrow>
               if m = 0 then data[4 * idx + 3 := 0]
               else if m < 255 then
                 (if 4 * idx + 3 < length data
                  then data[4 * idx + 3 :=
                         u8clamp \<lfloor>fl64 (real (data ! (4 * idx + 3)) * fl64 (real m / 255))\<rfloor>]
                  else data)
               else data))
        = (\<lambda>idx data. data[4 * idx + 3 := featheredAlpha mask' idx (data ! (4 * idx + 3))])"
    by (intro ext) (auto simp: featheredAlpha_def list_update_beyond not_less split: option.split)
  then show ?thesis
    unfolding applyMaskWithFeathering_def cell_loop_def by simp
qed

lemma applyMaskWithFeathering_alpha:
  assumes "4 * idx + 3 < length data"
  shows "applyMaskWithFeathering data mask' width height ! (4 * idx + 3)
           = featheredAlpha mask' idx (data ! (4 * idx + 3))"
proof -
  have m: "idx \<in> set [0..<(length data + 3) div 4]" using assms by auto
  have d: "distinct (map (\<lambda>idx. 4 * idx + 3) [0..<(length data + 3) div 4])"
    by (simp add: distinct_map inj_on_def)
  show ?thesis
    unfolding applyMaskWithFeathering_cell_loop
    using cell_loop_hit [of idx "[0..<(length data + 3) div 4]" "\<lambda>idx. 4 * idx + 3" data
        "featheredAlpha mask'"] m assms d by simp
qed

lemma refineAlgorithmMask_values:
  assumes "refineAlgorithmMask detectImageEdges imageData mask' width height = Inr refinedMask"
  shows "v \<in> set refinedMask \<Longrightarrow> v = 0 \<or> v = 255"
  using assms
  by (auto simp: refineAlgorithmMask_def Let_def split: option.splits if_splits)

text \<open>
  C10.  Whenever \<^verbatim>\<open>refineAlgorithmMask\<close> returns a mask, every entry of it is 0 or 255, no
  entry lies strictly between 0 and 255, and \<^verbatim>\<open>applyMaskWithFeathering\<close> with that mask
  leaves the alpha byte of every pixel either 0 (where the mask holds 0) or as it was.
\<close>

theorem refineAlgorithmMask_binary_so_no_fractional_alpha:
  assumes "refineAlgorithmMask detectImageEdges imageData mask' width height = Inr refinedMask"
  shows "(\<forall>v \<in> set refinedMask. v = 0 \<or> v = 255)
       \<and> (\<forall>v \<in> set refinedMask. \<not> (0 < v \<and> v < 255))
       \<and> (\<forall>idx. 4 * idx + 3 < length data \<longrightarrow>
            applyMaskWithFeathering data refinedMask width height ! (4 * idx + 3)
              = (if rd refinedMask (int idx) = Some 0 then 0 else data ! (4 * idx + 3)))"
proof (intro conjI ballI allI impI)
  fix v assume v: "v \<in> set refinedMask"
  show "v = 0 \<or> v = 255" using refineAlgorithmMask_values [OF assms v] .
  then show "\<not> (0 < v \<and> v < 255)" by auto
next
  fix idx assume i: "4 * idx + 3 < length data"
  show "applyMaskWithFeathering data refinedMask width height ! (4 * idx + 3)
              = (if rd refinedMask (int idx) = Some 0 then 0 else data ! (4 * idx + 3))"
  proof (cases "rd refinedMask (int idx)")
    case None
    then show ?thesis
      using applyMaskWithFeathering_alpha [OF i] by (simp add: featheredAlpha_def)
  next
    case (Some m)
    then have "m \<in> set refinedMask" by (auto simp: rd_def split: if_splits)
    then have "m = 0 \<or> m = 255" using refineAlgorithmMask_values [OF assms] by blast
    then show ?thesis
      using applyMaskWithFeathering_alpha [OF i] Some by (auto simp: featheredAlpha_def)
  qed
qed

theorem refineAlgorithmMask_binary_so_no_fractional_alpha_witness:
  "refineAlgorithmMask (Some (\<lambda>d w h. replicate (w * h) 0)) [10, 20, 30, 200, 40, 50, 60, 180]
      [1, 0] 2 1 = Inr [255, 0]
   \<and> applyMaskWithFeathering [10, 20, 30, 200, 40, 50, 60, 180] [255, 0] 2 1 ! (4 * 0 + 3) = 200
   \<and> applyMaskWithFeathering [10, 20, 30, 200, 40, 50, 60, 180] [255, 0] 2 1 ! (4 * 1 + 3) = 0"
proof -
  let ?d = "[10, 20, 30, 200, 40, 50, 60, 180 :: nat]"
  have r: "refineAlgorithmMask (Some (\<lambda>d w h. replicate (w * h) 0)) ?d [1, 0] 2 1 = Inr [255, 0]"
    by (simp add: refineAlgorithmMask_def smoothMaskEdges_def erode_def dilate_def refineEdges_def)
  note t = refineAlgorithmMask_binary_so_no_fractional_alpha [OF r, of ?d]
  have t3: "\<And>idx. 4 * idx + 3 < length ?d \<Longrightarrow>
            applyMaskWithFeathering ?d [255, 0] 2 1 ! (4 * idx + 3)
              = (if rd [255, 0 :: nat] (int idx) = Some 0 then 0 else ?d ! (4 * idx + 3))"
    using t by blast
  have a: "applyMaskWithFeathering ?d [255, 0] 2 1 ! (4 * 0 + 3) = 200"
    using t3 [of 0] by (simp add: rd_def)
  have b: "applyMaskWithFeathering ?d [255, 0] 2 1 ! (4 * 1 + 3) = 0"
    using t3 [of 1] by (simp add: rd_def)
  from r a b show ?thesis by blast
qed

section \<open>Region Grower: the first pass\<close>

lemma firstPass_upd_loop:
  "firstPass data width height bgColor =
     upd_loop (\<lambda>idx. below (distToBackground data bgColor idx)
                        (if isOnBorder width height (idx mod width) (idx div width)
                         then threshold * 1.8 else threshold))
       (\<lambda>idx. idx) (\<lambda>idx. 1) [0..<(length data + 3) div 4] (replicate (width * height) 0)"
  unfolding firstPass_def upd_loop_def Let_def by (rule refl)

lemma firstPass_length [simp]: "length (firstPass data width height bgColor) = width * height"
  unfolding firstPass_upd_loop by simp

lemma firstPass_pixel:
  assumes "idx < width * height" "idx < (length data + 3) div 4"
  shows "firstPass data width height bgColor ! idx =
           (if below (distToBackground data bgColor idx)
                 (if isOnBorder width height (idx mod width) (idx div width)
                  then threshold * 1.8 else threshold)
            then 1 else 0)"
proof -
  let ?P = "\<lambda>idx. below (distToBackground data bgColor idx)
                        (if isOnBorder width height (idx mod width) (idx div width)
                         then threshold * 1.8 else threshold)"
  let ?ps = "[0..<(length data + 3) div 4]"
  let ?acc = "replicate (width * height) (0::nat)"
  have m: "idx \<in> set ?ps" using assms(2) by simp
  have d: "distinct (map (\<lambda>idx. idx) ?ps)" by simp
  have l: "(\<lambda>idx. idx) idx < length ?acc" using assms(1) by simp
  show ?thesis
  proof (cases "?P idx")
    case True
    have "upd_loop ?P (\<lambda>idx. idx) (\<lambda>idx. 1) ?ps ?acc ! ((\<lambda>idx. idx) idx) = (\<lambda>idx. 1) idx"
      using m True l d by (rule upd_loop_hit)
    then show ?thesis unfolding firstPass_upd_loop using True by simp
  next
    case False
    have "upd_loop ?P (\<lambda>idx. idx) (\<lambda>idx. 1) ?ps ?acc ! ((\<lambda>idx. idx) idx) = ?acc ! ((\<lambda>idx. idx) idx)"
      using m False d by (rule upd_loop_miss)
    then show ?thesis unfolding firstPass_upd_loop using False assms(1) by simp
  qed
qed

lemma distToBackground_Some:
  assumes "4 * idx + 2 < length data"
  shows "distToBackground data (RGB (Num r2) (Num g2) (Num b2)) idx =
           Some (sqrt (((real (data ! (4 * idx)) - r2) * 0.3)\<^sup>2
                     + ((real (data ! (4 * idx + 1)) - g2) * 0.59)\<^sup>2
                     + ((real (data ! (4 * idx + 2)) - b2) * 0.11)\<^sup>2))"
proof -
  have "rd data (int (4 * idx)) = Some (data ! (4 * idx))"
    "rd data (int (4 * idx) + 1) = Some (data ! (4 * idx + 1))"
    "rd data (int (4 * idx) + 2) = Some (data ! (4 * idx + 2))"
    using assms by (simp_all add: rd_def nat_add_distrib nat_mult_distrib)
  then show ?thesis
    by (simp add: distToBackground_def weightedColorDistance_def byte_def num_def)
qed

text \<open>
  C1 as amended.  For every PixelBuffer, background colour with numeric components and the
  threshold 50, the first pass of the Region Grower writes 1 at a pixel exactly when the
  weighted distance (weights 0.30, 0.59, 0.11) of its colour to the background colour is
  below the adaptive threshold, and 0 otherwise: 1 marks a pixel that looks like
  background.  The adaptive threshold is 90 (50 times 1.8) where x < 30, x > width - 30,
  y < 30 or y > height - 30, and 50 elsewhere.
\<close>

theorem firstPass_marks_background_like:
  assumes "idx < width * height" "4 * idx + 3 < length data"
  shows "firstPass data width height (RGB (Num r2) (Num g2) (Num b2)) ! idx =
           (if sqrt (((real (data ! (4 * idx)) - r2) * 0.3)\<^sup>2
                   + ((real (data ! (4 * idx + 1)) - g2) * 0.59)\<^sup>2
                   + ((real (data ! (4 * idx + 2)) - b2) * 0.11)\<^sup>2)
               < (if int (idx mod width) < 30 \<or> int (idx mod width) > int width - 30
                     \<or> int (idx div width) < 30 \<or> int (idx div width) > int height - 30
                  then 90 else 50)
            then 1 else 0)"
proof -
  have v: "idx < (length data + 3) div 4" using assms(2) by simp
  have s: "4 * idx + 2 < length data" using assms(2) by simp
  show ?thesis
    unfolding firstPass_pixel [OF assms(1) v] distToBackground_Some [OF s]
    by (simp add: below_def isOnBorder_def threshold_def)
qed

theorem firstPass_marks_background_like_witness:
  "(0::nat) < 1 * 1 \<and> 4 * 0 + 3 < length [200, 200, 200, 255 :: nat]
   \<and> firstPass [200, 200, 200, 255] 1 1 (RGB (Num 210) (Num 210) (Num 210)) ! 0 = 1"
proof -
  have h: "(0::nat) < 1 * 1" "4 * 0 + 3 < length [200, 200, 200, 255 :: nat]" by simp_all
  note t = firstPass_marks_background_like [OF h, of 210 210 210]
  have "sqrt (((real ([200, 200, 200, 255 :: nat] ! (4 * 0)) - 210) * 0.3)\<^sup>2
            + ((real ([200, 200, 200, 255 :: nat] ! (4 * 0 + 1)) - 210) * 0.59)\<^sup>2
            + ((real ([200, 200, 200, 255 :: nat] ! (4 * 0 + 2)) - 210) * 0.11)\<^sup>2) < 90"
    by (rule real_less_lsqrt) (simp_all add: power2_eq_square)
  with t h show ?thesis by simp
qed

text \<open>
  C1 as stated fails: a pixel whose colour is the background colour has distance 0, which
  is not at least the threshold, and the first pass writes 1 there.
\<close>

theorem firstPass_polarity_counterexample:
  "firstPass [210, 210, 210, 255] 1 1 (RGB (Num 210) (Num 210) (Num 210)) ! 0
   \<noteq> spec_firstPass_label [210, 210, 210, 255] 1 1 (RGB (Num 210) (Num 210) (Num 210)) 0"
proof -
  have d: "distToBackground [210, 210, 210, 255] (RGB (Num 210) (Num 210) (Num 210)) 0 = Some 0"
    using distToBackground_Some [of 0 "[210, 210, 210, 255]" 210 210 210] by simp
  have "firstPass [210, 210, 210, 255] 1 1 (RGB (Num 210) (Num 210) (Num 210)) ! 0 = 1"
    using firstPass_pixel [of 0 1 1 "[210, 210, 210, 255]" "RGB (Num 210) (Num 210) (Num 210)"]
    by (simp add: d below_def threshold_def isOnBorder_def)
  moreover have
    "spec_firstPass_label [210, 210, 210, 255] 1 1 (RGB (Num 210) (Num 210) (Num 210)) 0 = 0"
    by (simp add: spec_firstPass_label_def d threshold_def isOnBorder_def)
  ultimately show ?thesis by simp
qed

section \<open>Color Sampler: the samples and the dominant bin\<close>

lemma rd_plus1: "k + 1 < length a \<Longrightarrow> rd a (int k + 1) = Some (a ! (k + 1))"
proof -
  assume h: "k + 1 < length a"
  have "int k + 1 = int (k + 1)" by simp
  then show ?thesis using rd_in_range [OF h] by metis
qed

lemma rd_plus2: "k + 2 < length a \<Longrightarrow> rd a (int k + 2) = Some (a ! (k + 2))"
proof -
  assume h: "k + 2 < length a"
  have "int k + 2 = int (k + 2)" by simp
  then show ?thesis using rd_in_range [OF h] by metis
qed

lemma borderPixel_in_range:
  assumes "x < width" "y < height" "length data = 4 * width * height"
  shows "borderPixel data width y x =
           (Some (data ! ((y * width + x) * 4)), Some (data ! ((y * width + x) * 4 + 1)),
            Some (data ! ((y * width + x) * 4 + 2)))"
proof -
  have "y * width + x < width * height" using assms(1,2) by (rule pixel_index_bound)
  then have l: "(y * width + x) * 4 + 2 < length data" using assms(3) by simp
  then have "(y * width + x) * 4 < length data" "(y * width + x) * 4 + 1 < length data"
    by simp_all
  then show ?thesis
    unfolding borderPixel_def Let_def using l
    by (simp only: rd_in_range rd_plus1 rd_plus2)
qed

lemma concat_map_elem:
  "c \<in> set (concat (map (\<lambda>y. map (\<lambda>x. f y x) xs) ys)) \<Longrightarrow> \<exists>y \<in> set ys. \<exists>x \<in> set xs. c = f y x"
  by auto

lemma getBorderColors_elems:
  assumes "c \<in> set (getBorderColors data width height)"
  shows "\<exists>y x. y < height \<and> x < width \<and> c = borderPixel data width y x"
proof -
  define bs where "bs = min 30 (min (width div 15) (height div 15))"
  have "bs \<le> width div 15" "bs \<le> height div 15" unfolding bs_def by simp_all
  moreover have "width div 15 \<le> width" "height div 15 \<le> height" by simp_all
  ultimately have bw: "bs \<le> width" and bh: "bs \<le> height" by linarith+
  let ?f = "\<lambda>y x. borderPixel data width y x"
  have "c \<in> set (concat (map (\<lambda>y. map (\<lambda>x. ?f y x) [0..<width]) [0..<bs]))
      \<or> c \<in> set (concat (map (\<lambda>y. map (\<lambda>x. ?f y x) [0..<width]) [height - bs..<height]))
      \<or> c \<in> set (concat (map (\<lambda>y. map (\<lambda>x. ?f y x) [0..<bs]) [0..<height]))
      \<or> c \<in> set (concat (map (\<lambda>y. map (\<lambda>x. ?f y x) [width - bs..<width]) [0..<height]))"
    using assms unfolding getBorderColors_def Let_def bs_def [symmetric]
    by (simp only: set_append Un_iff)
  then consider
      (top) y x where "y \<in> set [0..<bs]" "x \<in> set [0..<width]" "c = ?f y x"
    | (bottom) y x where "y \<in> set [height - bs..<height]" "x \<in> set [0..<width]" "c = ?f y x"
    | (left) y x where "y \<in> set [0..<height]" "x \<in> set [0..<bs]" "c = ?f y x"
    | (right) y x where "y \<in> set [0..<height]" "x \<in> set [width - bs..<width]" "c = ?f y x"
    using concat_map_elem [of c ?f] by blast
  then show ?thesis
  proof cases
    case top
    then have "y < height \<and> x < width" using bh by simp
    with top(3) show ?thesis by blast
  next
    case bottom
    then have "y < height \<and> x < width" by simp
    with bottom(3) show ?thesis by blast
  next
    case left
    then have "y < height \<and> x < width" using bw by simp
    with left(3) show ?thesis by blast
  next
    case right
    then have "y < height \<and> x < width" by simp
    with right(3) show ?thesis by blast
  qed
qed

lemma getBorderColors_nonempty:
  assumes "15 \<le> width" "15 \<le> height"
  shows "getBorderColors data width height \<noteq> []"
proof -
  define bs where "bs = min 30 (min (width div 15) (height div 15))"
  have "0 < width div 15" "0 < height div 15"
    using assms by (simp_all add: div_greater_zero_iff)
  then have b: "0 < bs" unfolding bs_def by simp
  have w: "0 < width" using assms(1) by simp
  have "map (\<lambda>x. borderPixel data width 0 x) [0..<width] \<noteq> []" using w by simp
  moreover have "map (\<lambda>x. borderPixel data width 0 x) [0..<width]
      \<in> set (map (\<lambda>y. map (\<lambda>x. borderPixel data width y x) [0..<width]) [0..<bs])"
    using b by (simp add: image_iff) (rule bexI [of _ 0], simp_all)
  ultimately have "concat (map (\<lambda>y. map (\<lambda>x. borderPixel data width y x) [0..<width]) [0..<bs]) \<noteq> []"
    unfolding concat_eq_Nil_conv by blast
  then show ?thesis
    unfolding getBorderColors_def Let_def bs_def [symmetric] by simp
qed

lemma bump_count:
  "(case map_of (bump key buckets) k of None \<Rightarrow> 0 | Some c \<Rightarrow> c)
   = (case map_of buckets k of None \<Rightarrow> 0 | Some c \<Rightarrow> c) + (if k = key then 1 else 0)"
  by (induction key buckets rule: bump.induct) auto

lemma bump_keys: "fst ` set (bump key buckets) = insert key (fst ` set buckets)"
  by (induction key buckets rule: bump.induct) auto

lemma bump_distinct: "distinct (map fst buckets) \<Longrightarrow> distinct (map fst (bump key buckets))"
proof (induction key buckets rule: bump.induct)
  case (1 key)
  then show ?case by simp
next
  case (2 key k c buckets)
  show ?case
  proof (cases "key = k")
    case True
    then show ?thesis using "2.prems" by simp
  next
    case False
    have "k \<notin> fst ` set (bump key buckets)"
      using False "2.prems" by (simp add: bump_keys)
    moreover have "distinct (map fst (bump key buckets))"
      using "2.IH" [OF False] "2.prems" by simp
    ultimately show ?thesis using False by simp
  qed
qed

lemma bump_positive:
  "list_all (\<lambda>p. 0 < snd p) buckets \<Longrightarrow> list_all (\<lambda>p. 0 < snd p) (bump key buckets)"
  by (induction key buckets rule: bump.induct) auto

lemma fold_bump_count:
  "(case map_of (fold (\<lambda>c buckets. bump (bucketKey c) buckets) colors buckets) k
      of None \<Rightarrow> 0 | Some c \<Rightarrow> c)
   = (case map_of buckets k of None \<Rightarrow> 0 | Some c \<Rightarrow> c) + count_list (map bucketKey colors) k"
  by (induction colors arbitrary: buckets) (auto simp: bump_count)

lemma fold_bump_distinct:
  "distinct (map fst buckets) \<Longrightarrow>
   distinct (map fst (fold (\<lambda>c buckets. bump (bucketKey c) buckets) colors buckets))"
  by (induction colors arbitrary: buckets) (auto simp: bump_distinct)

lemma fold_bump_positive:
  "list_all (\<lambda>p. 0 < snd p) buckets \<Longrightarrow>
   list_all (\<lambda>p. 0 < snd p) (fold (\<lambda>c buckets. bump (bucketKey c) buckets) colors buckets)"
  by (induction colors arbitrary: buckets) (auto simp: bump_positive)

lemma bucketsOf_count:
  "(k, c) \<in> set (bucketsOf colors) \<Longrightarrow> c = count_list (map bucketKey colors) k \<and> 0 < c"
proof -
  assume m: "(k, c) \<in> set (bucketsOf colors)"
  have "distinct (map fst (bucketsOf colors))"
    unfolding bucketsOf_def by (rule fold_bump_distinct) simp
  with m have "map_of (bucketsOf colors) k = Some c" by simp
  moreover have "(case map_of (bucketsOf colors) k of None \<Rightarrow> 0 | Some c \<Rightarrow> c)
                   = count_list (map bucketKey colors) k"
    unfolding bucketsOf_def using fold_bump_count [of colors "[]" k] by simp
  moreover have "0 < c" using fold_bump_positive [of "[]" colors] m
    unfolding bucketsOf_def by (auto simp: list_all_iff)
  ultimately show ?thesis by simp
qed

lemma bucketsOf_other:
  "map_of (bucketsOf colors) k = None \<Longrightarrow> count_list (map bucketKey colors) k = 0"
  using fold_bump_count [of colors "[]" k] unfolding bucketsOf_def by simp

lemma bucketsOf_keys: "fst ` set (bucketsOf colors) = bucketKey ` set colors"
proof -
  have "fst ` set (fold (\<lambda>c buckets. bump (bucketKey c) buckets) colors buckets)
          = bucketKey ` set colors \<union> fst ` set buckets" for buckets
    by (induction colors arbitrary: buckets) (auto simp: bump_keys)
  then show ?thesis unfolding bucketsOf_def by simp
qed

lemma dominantScan_Nil [simp]: "dominantScan [] md = md"
  by (simp add: dominantScan_def)

lemma dominantScan_Cons [simp]:
  "dominantScan ((k, c) # buckets) (m, d) =
     dominantScan buckets (if c > m then (c, Some k) else (m, d))"
  by (simp add: dominantScan_def)

lemma dominantScan_max:
  "m \<le> fst (dominantScan buckets (m, d))
   \<and> (\<forall>p \<in> set buckets. snd p \<le> fst (dominantScan buckets (m, d)))"
proof (induction buckets arbitrary: m d)
  case Nil
  then show ?case by simp
next
  case (Cons p buckets)
  obtain k c where p: "p = (k, c)" by (cases p)
  show ?case
  proof (cases "c > m")
    case True
    with Cons [of c "Some k"] p show ?thesis by auto
  next
    case False
    with Cons [of m d] p show ?thesis by auto
  qed
qed

lemma dominantScan_key:
  "dominantScan buckets (m, d) = (m, d)
   \<or> (\<exists>k. snd (dominantScan buckets (m, d)) = Some k
          \<and> (k, fst (dominantScan buckets (m, d))) \<in> set buckets)"
proof (induction buckets arbitrary: m d)
  case Nil
  then show ?case by simp
next
  case (Cons p buckets)
  obtain k c where p: "p = (k, c)" by (cases p)
  show ?case
  proof (cases "c > m")
    case True
    let ?r = "dominantScan buckets (c, Some k)"
    have e: "dominantScan (p # buckets) (m, d) = ?r" using True p by simp
    from Cons [of c "Some k"] consider
        (same) "?r = (c, Some k)"
      | (later) k' where "snd ?r = Some k'" "(k', fst ?r) \<in> set buckets" by blast
    then show ?thesis
    proof cases
      case same
      then have "snd ?r = Some k \<and> (k, fst ?r) \<in> set (p # buckets)" using p by simp
      then show ?thesis unfolding e by blast
    next
      case later
      then have "snd ?r = Some k' \<and> (k', fst ?r) \<in> set (p # buckets)" by simp
      then show ?thesis unfolding e by blast
    qed
  next
    case False
    let ?r = "dominantScan buckets (m, d)"
    have e: "dominantScan (p # buckets) (m, d) = ?r" using False p by simp
    from Cons [of m d] consider
        (same) "?r = (m, d)"
      | (later) k' where "snd ?r = Some k'" "(k', fst ?r) \<in> set buckets" by blast
    then show ?thesis
    proof cases
      case same
      then show ?thesis unfolding e by blast
    next
      case later
      then have "snd ?r = Some k' \<and> (k', fst ?r) \<in> set (p # buckets)" by simp
      then show ?thesis unfolding e by blast
    qed
  qed
qed

lemma getDominantColor_scan:
  "getDominantColor colors =
     (case snd (dominantScan (bucketsOf colors) (0, None)) of
        None \<Rightarrow> RGB NaN Undefined Undefined
      | Some (r, g, b) \<Rightarrow> RGB (binCenter r) (binCenter g) (binCenter b))"
  by (simp add: getDominantColor_def bucketsOf_def dominantScan_def Let_def split: prod.split)

lemma getDominantColor_most_sampled:
  assumes "colors \<noteq> []"
    and "\<And>c. c \<in> set colors \<Longrightarrow> \<exists>r g b. c = (Some r, Some g, Some b) \<and> r \<le> 255 \<and> g \<le> 255 \<and> b \<le> 255"
  shows "\<exists>kr kg kb.
           getDominantColor colors
             = RGB (Num (real (kr * 20 + 10))) (Num (real (kg * 20 + 10))) (Num (real (kb * 20 + 10)))
         \<and> kr * 20 + 10 \<le> 255 \<and> kg * 20 + 10 \<le> 255 \<and> kb * 20 + 10 \<le> 255
         \<and> 0 < count_list (map bucketKey colors) (Some kr, Some kg, Some kb)
         \<and> (\<forall>key. count_list (map bucketKey colors) key
                    \<le> count_list (map bucketKey colors) (Some kr, Some kg, Some kb))"
proof -
  let ?bs = "bucketsOf colors"
  let ?m = "fst (dominantScan ?bs (0, None))"
  let ?d = "snd (dominantScan ?bs (0, None))"
  obtain c1 where "c1 \<in> set colors" using assms(1) by (cases colors) auto
  then have "bucketKey c1 \<in> fst ` set ?bs" by (simp add: bucketsOf_keys)
  then obtain p0 where "p0 \<in> set ?bs" by blast
  then have "(fst p0, snd p0) \<in> set ?bs" by simp
  then obtain k0 c0 where kc0: "(k0, c0) \<in> set ?bs" by blast
  then have "0 < c0" using bucketsOf_count by blast
  moreover have "c0 \<le> ?m" using dominantScan_max [of 0 ?bs None] kc0 by force
  ultimately have mpos: "0 < ?m" by simp
  then have "dominantScan ?bs (0, None) \<noteq> (0, None)" by auto
  then obtain k where k: "?d = Some k" "(k, ?m) \<in> set ?bs"
    using dominantScan_key [of ?bs 0 None] by blast
  have cnt: "count_list (map bucketKey colors) k = ?m"
    using bucketsOf_count [OF k(2)] by simp
  have "k \<in> bucketKey ` set colors" using k(2) bucketsOf_keys [of colors] by force
  then obtain c where c: "c \<in> set colors" "k = bucketKey c" by blast
  then obtain r g b where rgb: "c = (Some r, Some g, Some b)" "r \<le> 255" "g \<le> 255" "b \<le> 255"
    using assms(2) by blast
  have kk: "k = (Some (r div 20), Some (g div 20), Some (b div 20))"
    using c(2) rgb(1) by (simp add: bucketKey_def)
  have res: "getDominantColor colors
               = RGB (Num (real (r div 20 * 20 + 10))) (Num (real (g div 20 * 20 + 10)))
                   (Num (real (b div 20 * 20 + 10)))"
    unfolding getDominantColor_scan k(1) kk by (simp add: binCenter_def)
  have bnd: "r div 20 * 20 + 10 \<le> 255" "g div 20 * 20 + 10 \<le> 255" "b div 20 * 20 + 10 \<le> 255"
  proof -
    have "r div 20 \<le> 255 div 20" "g div 20 \<le> 255 div 20" "b div 20 \<le> 255 div 20"
      using rgb(2,3,4) by (simp_all only: div_le_mono)
    then show "r div 20 * 20 + 10 \<le> 255" "g div 20 * 20 + 10 \<le> 255" "b div 20 * 20 + 10 \<le> 255"
      by simp_all
  qed
  have best: "count_list (map bucketKey colors) key \<le> count_list (map bucketKey colors) k" for key
  proof (cases "map_of ?bs key")
    case None
    then show ?thesis using bucketsOf_other by simp
  next
    case (Some c')
    then have m: "(key, c') \<in> set ?bs" by (rule map_of_SomeD)
    then have "c' \<le> ?m" using dominantScan_max [of 0 ?bs None] by force
    then show ?thesis using bucketsOf_count [OF m] cnt by simp
  qed
  have pos: "0 < count_list (map bucketKey colors) k" using cnt mpos by simp
  show ?thesis
    apply (rule exI [of _ "r div 20"])
    apply (rule exI [of _ "g div 20"])
    apply (rule exI [of _ "b div 20"])
    using res bnd pos best unfolding kk by blast
qed




section \<open>The heuristic path on an image of one colour\<close>

lemma uniform_borderColors:
  assumes "uniform data width height r g b" "c \<in> set (getBorderColors data width height)"
  shows "c = (Some r, Some g, Some b)"
proof -
  obtain y x where yx: "y < height" "x < width" "c = borderPixel data width y x"
    using getBorderColors_elems [OF assms(2)] by blast
  have l: "length data = 4 * width * height" using assms(1) by (simp add: uniform_def)
  have k: "y * width + x < width * height" using yx(2,1) by (rule pixel_index_bound)
  then have "data ! ((y * width + x) * 4) = r \<and> data ! ((y * width + x) * 4 + 1) = g
              \<and> data ! ((y * width + x) * 4 + 2) = b"
    using assms(1) unfolding uniform_def by blast
  then show ?thesis
    unfolding yx(3) borderPixel_in_range [OF yx(2,1) l] by simp
qed

lemma uniform_dominantColor:
  assumes "uniform data width height r g b" "15 \<le> width" "15 \<le> height"
  shows "getDominantColor (getBorderColors data width height)
           = RGB (Num (real (r div 20 * 20 + 10))) (Num (real (g div 20 * 20 + 10)))
               (Num (real (b div 20 * 20 + 10)))"
proof -
  let ?cs = "getBorderColors data width height"
  have ne: "?cs \<noteq> []" using assms(2,3) by (rule getBorderColors_nonempty)
  have all: "\<And>c. c \<in> set ?cs \<Longrightarrow> c = (Some r, Some g, Some b)"
    using uniform_borderColors [OF assms(1)] by blast
  have bytes: "r \<le> 255 \<and> g \<le> 255 \<and> b \<le> 255" using assms(1) by (simp add: uniform_def)
  have "\<And>c. c \<in> set ?cs \<Longrightarrow> \<exists>r g b. c = (Some r, Some g, Some b) \<and> r \<le> 255 \<and> g \<le> 255 \<and> b \<le> 255"
    using all bytes by blast
  from getDominantColor_most_sampled [OF ne this]
  obtain kr kg kb where res: "getDominantColor ?cs
             = RGB (Num (real (kr * 20 + 10))) (Num (real (kg * 20 + 10))) (Num (real (kb * 20 + 10)))"
    and pos: "0 < count_list (map bucketKey ?cs) (Some kr, Some kg, Some kb)" by blast
  have "(Some kr, Some kg, Some kb) \<in> set (map bucketKey ?cs)"
    using pos by (metis count_notin less_numeral_extra(3))
  then obtain c where "c \<in> set ?cs" "(Some kr, Some kg, Some kb) = bucketKey c" by auto
  then have "(Some kr, Some kg, Some kb) = bucketKey (Some r, Some g, Some b)"
    using all by blast
  then have "kr = r div 20 \<and> kg = g div 20 \<and> kb = b div 20"
    by (simp add: bucketKey_def)
  with res show ?thesis by simp
qed

lemma bin_center_near:
  "\<bar>real v - real (v div 20 * 20 + 10)\<bar> \<le> 10"
proof -
  have "v = v div 20 * 20 + v mod 20" by simp
  then have "real v = real (v div 20 * 20) + real (v mod 20)"
    by (metis of_nat_add)
  moreover have "real (v mod 20) < 20" by simp
  moreover have "0 \<le> real (v mod 20)" by simp
  ultimately show ?thesis by simp
qed

lemma weighted_square_bound:
  fixes a w :: real
  assumes "\<bar>a\<bar> \<le> 10" "0 \<le> w"
  shows "(a * w)\<^sup>2 \<le> (10 * w)\<^sup>2"
proof -
  have "\<bar>a * w\<bar> \<le> \<bar>10 * w\<bar>"
    using assms by (simp add: abs_mult mult_right_mono)
  then show ?thesis by (rule abs_le_square_iff [THEN iffD1])
qed

lemma uniform_distance:
  assumes "uniform data width height r g b" "idx < width * height"
  shows "\<exists>d. distToBackground data
                (RGB (Num (real (r div 20 * 20 + 10))) (Num (real (g div 20 * 20 + 10)))
                   (Num (real (b div 20 * 20 + 10)))) idx = Some d \<and> d < 40"
proof -
  have l: "4 * idx + 2 < length data" using assms by (simp add: uniform_def)
  have px: "data ! (4 * idx) = r" "data ! (4 * idx + 1) = g" "data ! (4 * idx + 2) = b"
    using assms unfolding uniform_def by (simp_all add: mult.commute)
  let ?s = "((real r - real (r div 20 * 20 + 10)) * 0.3)\<^sup>2
          + ((real g - real (g div 20 * 20 + 10)) * 0.59)\<^sup>2
          + ((real b - real (b div 20 * 20 + 10)) * 0.11)\<^sup>2"
  have "((real r - real (r div 20 * 20 + 10)) * 0.3)\<^sup>2 \<le> (10 * 0.3)\<^sup>2"
    "((real g - real (g div 20 * 20 + 10)) * 0.59)\<^sup>2 \<le> (10 * 0.59)\<^sup>2"
    "((real b - real (b div 20 * 20 + 10)) * 0.11)\<^sup>2 \<le> (10 * 0.11)\<^sup>2"
    by (rule weighted_square_bound [OF bin_center_near], simp)+
  then have "?s \<le> (10 * 0.3)\<^sup>2 + (10 * 0.59)\<^sup>2 + (10 * 0.11)\<^sup>2" by linarith
  also have "\<dots> < 40\<^sup>2" by (simp add: power2_eq_square)
  finally have "sqrt ?s < 40" by (intro real_less_lsqrt) simp_all
  then show ?thesis
    unfolding distToBackground_Some [OF l] px by blast
qed

lemma all_same_replicate:
  "length xs = n \<Longrightarrow> (\<And>v. v \<in> set xs \<Longrightarrow> v = c) \<Longrightarrow> xs = replicate n c"
  by (metis replicate_length_same)

lemma uniform_firstPass:
  assumes "uniform data width height r g b"
  shows "firstPass data width height
           (RGB (Num (real (r div 20 * 20 + 10))) (Num (real (g div 20 * 20 + 10)))
              (Num (real (b div 20 * 20 + 10))))
         = replicate (width * height) 1"
proof (rule nth_equalityI)
  let ?bg = "RGB (Num (real (r div 20 * 20 + 10))) (Num (real (g div 20 * 20 + 10)))
              (Num (real (b div 20 * 20 + 10)))"
  show "length (firstPass data width height ?bg) = length (replicate (width * height) (1::nat))"
    by simp
  fix idx assume "idx < length (firstPass data width height ?bg)"
  then have i: "idx < width * height" by simp
  have v: "idx < (length data + 3) div 4" using assms i by (simp add: uniform_def)
  obtain d where d: "distToBackground data ?bg idx = Some d" "d < 40"
    using uniform_distance [OF assms i] by blast
  have "below (distToBackground data ?bg idx)
          (if isOnBorder width height (idx mod width) (idx div width)
           then threshold * 1.8 else threshold)"
    using d by (simp add: below_def threshold_def)
  then show "firstPass data width height ?bg ! idx = replicate (width * height) 1 ! idx"
    using firstPass_pixel [OF i v, of bgColor] i
    by (simp add: firstPass_pixel [OF i v])
qed

lemma replicate_update_same: "(replicate n c)[k := c] = replicate n c"
proof (rule nth_equalityI)
  show "length ((replicate n c)[k := c]) = length (replicate n c)" by simp
  fix i assume "i < length ((replicate n c)[k := c])"
  then show "(replicate n c)[k := c] ! i = replicate n c ! i"
    by (cases "i = k") simp_all
qed

lemma floodFillLoop_all_ones:
  "snd vm = replicate n 1 \<Longrightarrow>
   snd (floodFillLoop data width height bgColor start stack vm) = replicate n 1"
proof (induction data width height bgColor start stack vm rule: floodFillLoop.induct)
  case 1
  then show ?case by (simp add: floodFillLoop.simps(1))
next
  case (2 data width height bgColor start x y stack visited mask')
  have m: "mask' = replicate n 1" using "2.prems" by simp
  have u: "mask'[nat (y * int width + x) := 1] = replicate n 1"
    unfolding m by (rule replicate_update_same)
  show ?case
    apply (subst floodFillLoop.simps(2))
    using "2.IH" m u by simp
qed

lemma fold_invariant:
  "P s \<Longrightarrow> (\<And>x s. x \<in> set xs \<Longrightarrow> P s \<Longrightarrow> P (f x s)) \<Longrightarrow> P (fold f xs s)"
  by (induction xs arbitrary: s) auto

lemma seedFill_all_ones:
  "snd vm = replicate n 1 \<Longrightarrow>
   snd (seedFill data width height bgColor seedIdx startX startY vm) = replicate n 1"
  by (simp add: seedFill_def floodFill_def Let_def floodFillLoop_all_ones)

lemma floodFromBorders_all_ones:
  "floodFromBorders data width height bgColor (replicate n 1) = replicate n 1"
proof -
  let ?P = "\<lambda>vm :: nat set \<times> nat list. snd vm = replicate n 1"
  let ?f = "\<lambda>x vm.
                   seedFill data width height bgColor
                     ((int height - 1) * int width + int x) (int x) (int height - 1)
                     (seedFill data width height bgColor (int x) (int x) 0 vm)"
  let ?g = "\<lambda>y vm.
                   seedFill data width height bgColor
                     (int y * int width + (int width - 1)) (int width - 1) (int y)
                     (seedFill data width height bgColor (int y * int width) 0 (int y) vm)"
  have 1: "?P (fold ?f (strided width (borderStep width height)) ({}, replicate n 1))"
    by (rule fold_invariant) (simp_all add: seedFill_all_ones)
  have 2: "?P (fold ?g (strided height (borderStep width height))
                (fold ?f (strided width (borderStep width height)) ({}, replicate n 1)))"
    using 1 by (rule fold_invariant) (simp_all add: seedFill_all_ones)
  then show ?thesis by (simp add: floodFromBorders_def Let_def)
qed

lemma secondPass_all_ones:
  assumes "length data = 4 * width * height"
  shows "secondPass data width height bgColor (replicate (width * height) 1)
           = replicate (width * height) 1"
  unfolding secondPass_def
proof (rule fold_invariant [where P = "\<lambda>m. m = replicate (width * height) 1"])
  show "replicate (width * height) 1 = replicate (width * height) (1::nat)" by simp
next
  fix idx and m :: "nat list"
  assume i: "idx \<in> set [0..<(length data + 3) div 4]" and m: "m = replicate (width * height) 1"
  have "idx < width * height" using i assms by simp
  then have "rd m (int idx) = Some 1" unfolding m using rd_in_range [of idx "replicate (width * height) (1::nat)"] by simp
  then show "(if rd m (int idx) = Some 1 then m
        else
          (let dist = distToBackground data bgColor idx;
               x = int (idx mod width);
               y = int (idx div width)
           in if x > 0 \<and> x < int width - 1 \<and> y > 0 \<and> y < int height - 1
              then (let neighbors = [rd m ((y - 1) * int width + x),
                                     rd m ((y + 1) * int width + x),
                                     rd m (y * int width + (x - 1)),
                                     rd m (y * int width + (x + 1))];
                        bgNeighbors = length (filter (\<lambda>v. v = Some 1) neighbors)
                    in if bgNeighbors \<ge> 3 \<and> below dist (threshold * 1.5) then m[idx := 1]
                       else if below dist (threshold * 0.8) then m[idx := 1]
                       else m)
              else m)) = replicate (width * height) 1"
    using m by simp
qed

lemma uniform_createImprovedMask:
  assumes "uniform data width height r g b"
  shows "createImprovedMask data width height
           (RGB (Num (real (r div 20 * 20 + 10))) (Num (real (g div 20 * 20 + 10)))
              (Num (real (b div 20 * 20 + 10))))
         = replicate (width * height) 1"
proof -
  have l: "length data = 4 * width * height" using assms by (simp add: uniform_def)
  show ?thesis
    unfolding createImprovedMask_def uniform_firstPass [OF assms] floodFromBorders_all_ones
    using l by (rule secondPass_all_ones)
qed

lemma window_all_ones:
  assumes "\<rho> \<le> int y" "int y + \<rho> < int height" "\<rho> \<le> int x" "int x + \<rho> < int width"
    and "- \<rho> \<le> dy" "dy \<le> \<rho>" "- \<rho> \<le> dx" "dx \<le> \<rho>"
  shows "rd (replicate (width * height) 1) ((int y + dy) * int width + (int x + dx)) = Some (1::nat)"
proof -
  let ?Y = "int y + dy" and ?X = "int x + dx"
  have b: "\<not> ?X < 0" "\<not> int width \<le> ?X" "\<not> ?Y < 0" "\<not> int height \<le> ?Y"
    using assms by linarith+
  then have n: "nat (?Y * int width + ?X) < width * height" by (rule in_bounds_index)
  have "0 \<le> ?Y * int width" using b(3) by simp
  then have z: "0 \<le> ?Y * int width + ?X" using b(1) by linarith
  then have "?Y * int width + ?X < int (width * height)" using n by linarith
  then show ?thesis using z n by (simp add: rd_def)
qed

lemma window_product:
  "p \<in> set (List.product [- \<rho>..\<rho>] [- \<rho>..\<rho>]) \<Longrightarrow>
   - \<rho> \<le> fst p \<and> fst p \<le> \<rho> \<and> - \<rho> \<le> snd p \<and> snd p \<le> \<rho>"
  by (simp add: mem_Times_iff)

lemma all_ones_foregroundCount:
  assumes "2 \<le> x" "x + 2 < width" "2 \<le> y" "y + 2 < height"
  shows "foregroundCount (replicate (width * height) 1) width y x = 25"
    and "backgroundCount (replicate (width * height) 1) width y x = 0"
proof -
  let ?Q = "\<lambda>p. rd (replicate (width * height) 1)
                  ((int y + fst p) * int width + (int x + snd p)) = Some (1::nat)"
  have w: "?Q p" if "p \<in> set (List.product [-2..2] [-2..2])" for p
  proof -
    have "- 2 \<le> fst p \<and> fst p \<le> 2 \<and> - 2 \<le> snd p \<and> snd p \<le> 2"
      using window_product [of p 2] that by simp
    moreover have "2 \<le> int y" "int y + 2 < int height" "2 \<le> int x" "int x + 2 < int width"
      using assms by simp_all
    ultimately show ?thesis by (intro window_all_ones [where \<rho> = 2]) simp_all
  qed
  have "filter ?Q (List.product [-2..2] [-2..2]) = List.product [-2..2] [-2..2]"
    by (rule filter_True) (use w in blast)
  then have "length (filter ?Q (List.product [-2..2] [-2..2])) = 25"
    by (simp only: length_product length_upto) simp
  then show "foregroundCount (replicate (width * height) 1) width y x = 25"
    unfolding foregroundCount_def case_prod_unfold .
  have "filter (\<lambda>p. \<not> ?Q p) (List.product [-2..2] [-2..2]) = []"
    by (rule filter_False) (use w in blast)
  then have "length (filter (\<lambda>p. \<not> ?Q p) (List.product [-2..2] [-2..2])) = 0"
    by (simp only: list.size)
  then show "backgroundCount (replicate (width * height) 1) width y x = 0"
    unfolding backgroundCount_def case_prod_unfold .
qed

lemma all_ones_foregroundNeighbors:
  assumes "1 \<le> x" "x + 1 < width" "1 \<le> y" "y + 1 < height"
  shows "foregroundNeighbors (replicate (width * height) 1) width y x = 9"
proof -
  let ?Q = "\<lambda>p. rd (replicate (width * height) 1)
                  ((int y + fst p) * int width + (int x + snd p)) = Some (1::nat)"
  have w: "?Q p" if "p \<in> set (List.product [-1..1] [-1..1])" for p
  proof -
    have "- 1 \<le> fst p \<and> fst p \<le> 1 \<and> - 1 \<le> snd p \<and> snd p \<le> 1"
      using window_product [of p 1] that by simp
    moreover have "1 \<le> int y" "int y + 1 < int height" "1 \<le> int x" "int x + 1 < int width"
      using assms by simp_all
    ultimately show ?thesis by (intro window_all_ones [where \<rho> = 1]) simp_all
  qed
  have "filter ?Q (List.product [-1..1] [-1..1]) = List.product [-1..1] [-1..1]"
    by (rule filter_True) (use w in blast)
  then have "length (filter ?Q (List.product [-1..1] [-1..1])) = 9"
    by (simp only: length_product length_upto) simp
  then show ?thesis
    unfolding foregroundNeighbors_def case_prod_unfold .
qed

lemma refineEdges_all_ones:
  "refineEdges edges (replicate (width * height) 1) width height = replicate (width * height) 1"
proof (rule all_same_replicate)
  show "length (refineEdges edges (replicate (width * height) 1) width height) = width * height"
    by simp
  fix v assume "v \<in> set (refineEdges edges (replicate (width * height) 1) width height)"
  then consider "v \<in> set (replicate (width * height) (1::nat))"
    | p where "p \<in> set (List.product [2..<height - 2] [2..<width - 2])"
        "v = (if real (foregroundCount (replicate (width * height) 1) width (fst p) (snd p))
                 > real (backgroundCount (replicate (width * height) 1) width (fst p) (snd p)) * 1.5
              then 1 else 0)"
    unfolding refineEdges_product using upd_loop_mem by fast
  then show "v = 1"
  proof cases
    case 1
    then show ?thesis by simp
  next
    case 2
    then have "2 \<le> snd p" "snd p + 2 < width" "2 \<le> fst p" "fst p + 2 < height"
      by (auto simp: mem_Times_iff)
    then have "foregroundCount (replicate (width * height) 1) width (fst p) (snd p) = 25"
      "backgroundCount (replicate (width * height) 1) width (fst p) (snd p) = 0"
      by (rule all_ones_foregroundCount)+
    then show ?thesis unfolding 2(2) by simp
  qed
qed

lemma erode_all_ones:
  "erode (replicate (width * height) 1) width height = replicate (width * height) 1"
proof (rule all_same_replicate)
  show "length (erode (replicate (width * height) 1) width height) = width * height"
    by simp
  fix v assume "v \<in> set (erode (replicate (width * height) 1) width height)"
  then consider "v \<in> set (replicate (width * height) (1::nat))"
    | p where "p \<in> set (List.product [1..<height - 1] [1..<width - 1])"
        "foregroundNeighbors (replicate (width * height) 1) width (fst p) (snd p) < 5"
    unfolding erode_product using upd_loop_mem by fast
  then show "v = 1"
  proof cases
    case 1
    then show ?thesis by simp
  next
    case 2
    then have "1 \<le> snd p" "snd p + 1 < width" "1 \<le> fst p" "fst p + 1 < height"
      by (auto simp: mem_Times_iff)
    then have "foregroundNeighbors (replicate (width * height) 1) width (fst p) (snd p) = 9"
      by (rule all_ones_foregroundNeighbors)
    with 2(2) show ?thesis by simp
  qed
qed

lemma dilate_all_ones:
  "dilate (replicate n 1) width height = replicate n 1"
proof (rule all_same_replicate)
  show "length (dilate (replicate n 1) width height) = n" by simp
  fix v assume "v \<in> set (dilate (replicate n 1) width height)"
  then have "v \<in> set (replicate n (1::nat)) \<or> v = 1"
    unfolding dilate_product using upd_loop_mem by fast
  then show "v = 1" by auto
qed

lemma cell_loop_identity:
  "(\<And>p a. p \<in> set ps \<Longrightarrow> G p a = a) \<Longrightarrow> cell_loop G ix ps acc = acc"
  by (induction ps arbitrary: acc) simp_all

lemma applyMaskWithFeathering_opaque:
  "applyMaskWithFeathering data (replicate n 255) width height = data"
  unfolding applyMaskWithFeathering_cell_loop
  by (rule cell_loop_identity) (simp add: featheredAlpha_def rd_def)

lemma uniform_refineAlgorithmMask:
  "refineAlgorithmMask (Some detect) data (replicate (width * height) 1) width height
     = Inr (replicate (width * height) 255)"
  unfolding refineAlgorithmMask_def smoothMaskEdges_def refineEdges_all_ones erode_all_ones
    dilate_all_ones
  by simp

lemma uniform_improvedAlgorithm:
  assumes "uniform data width height r g b" "15 \<le> width" "15 \<le> height"
  shows "improvedAlgorithm (Some detect) data width height = Inr data"
  unfolding improvedAlgorithm_def Let_def uniform_dominantColor [OF assms]
    uniform_createImprovedMask [OF assms(1)] uniform_refineAlgorithmMask
  by (simp add: applyMaskWithFeathering_opaque)

lemma improvedAlgorithm_unbound:
  "improvedAlgorithm None data width height = Inl ReferenceError"
  by (simp add: improvedAlgorithm_def refineAlgorithmMask_def)

lemma concat_replicate_nth:
  "k < n \<Longrightarrow> j < 4 \<Longrightarrow> concat (replicate n [r, g, b, a]) ! (k * 4 + j) = [r, g, b, a] ! j"
proof (induction n arbitrary: k)
  case 0
  then show ?case by simp
next
  case (Suc n)
  show ?case
  proof (cases k)
    case 0
    have "j = 0 \<or> j = 1 \<or> j = 2 \<or> j = 3" using Suc.prems(2) by linarith
    then show ?thesis using 0 by auto
  next
    case (Suc k')
    then have "k' < n" using Suc.prems(1) by simp
    then have "concat (replicate n [r, g, b, a]) ! (k' * 4 + j) = [r, g, b, a] ! j"
      using Suc.prems(2) by (rule Suc.IH)
    moreover have "concat (replicate (Suc n) [r, g, b, a]) ! (k * 4 + j)
                     = concat (replicate n [r, g, b, a]) ! (k' * 4 + j)"
      using Suc by (simp add: nth_append)
    ultimately show ?thesis by simp
  qed
qed

lemma uniform_concat:
  assumes "r \<le> 255" "g \<le> 255" "b \<le> 255"
  shows "uniform (concat (replicate (width * height) [r, g, b, a])) width height r g b"
proof -
  have "concat (replicate (width * height) [r, g, b, a]) ! (k * 4) = r
      \<and> concat (replicate (width * height) [r, g, b, a]) ! (k * 4 + 1) = g
      \<and> concat (replicate (width * height) [r, g, b, a]) ! (k * 4 + 2) = b"
    if "k < width * height" for k
    using concat_replicate_nth [OF that, of 0 r g b a] concat_replicate_nth [OF that, of 1 r g b a]
      concat_replicate_nth [OF that, of 2 r g b a] by simp
  then show ?thesis
    using assms by (simp add: uniform_def length_concat sum_list_replicate)
qed

text \<open>
  C2 at a failing input.  On the 15x15 image whose pixels are all (200, 200, 200) with
  alpha 255, the Region Grower writes 1, its mark for background, at every pixel.  The Mask
  Refiner and the compositor read 1 as foreground: whatever function is bound to
  \<^verbatim>\<open>detectImageEdges\<close>, the image comes back unchanged, with alpha 255 at every pixel and not 0.
  With the module as it stands, where \<^verbatim>\<open>detectImageEdges\<close> is unbound, the path raises a
  ReferenceError and writes no image.
\<close>

theorem uniform_image_stays_opaque:
  "createImprovedMask (concat (replicate (15 * 15) [200, 200, 200, 255])) 15 15
     (getDominantColor (getBorderColors (concat (replicate (15 * 15) [200, 200, 200, 255])) 15 15))
     = replicate (15 * 15) 1
   \<and> (\<forall>detect. improvedAlgorithm (Some detect)
                   (concat (replicate (15 * 15) [200, 200, 200, 255])) 15 15
                 = Inr (concat (replicate (15 * 15) [200, 200, 200, 255])))
   \<and> improvedAlgorithm None (concat (replicate (15 * 15) [200, 200, 200, 255])) 15 15
       = Inl ReferenceError"
proof -
  let ?d = "concat (replicate (15 * 15) [200, 200, 200, 255 :: nat])"
  have u: "uniform ?d 15 15 200 200 200" by (rule uniform_concat) simp_all
  have w: "(15::nat) \<le> 15" by simp
  have "createImprovedMask ?d 15 15 (getDominantColor (getBorderColors ?d 15 15))
          = replicate (15 * 15) 1"
    unfolding uniform_dominantColor [OF u w w] by (rule uniform_createImprovedMask [OF u])
  moreover have "\<forall>detect. improvedAlgorithm (Some detect) ?d 15 15 = Inr ?d"
    using uniform_improvedAlgorithm [OF u w w] by blast
  moreover have "improvedAlgorithm None ?d 15 15 = Inl ReferenceError"
    by (rule improvedAlgorithm_unbound)
  ultimately show ?thesis by blast
qed

section \<open>Matte Estimator: the alpha of an unknown pixel\<close>



































section \<open>Facts about rounding\<close>

lemma powr_powi: "2 powr real_of_int e = (2::real) powi e"
  by (simp add: powr_real_of_int')

lemma binade_bounds:
  assumes "x \<noteq> 0"
  shows "2 powi binade x \<le> \<bar>x\<bar>" "\<bar>x\<bar> < 2 powi (binade x + 1)"
proof -
  have p: "0 < \<bar>x\<bar>" using assms by simp
  have b: "binade x = \<lfloor>log 2 \<bar>x\<bar>\<rfloor>" using assms by (simp add: binade_def)
  have "real_of_int (binade x) \<le> log 2 \<bar>x\<bar>" unfolding b by simp
  then have "2 powr real_of_int (binade x) \<le> \<bar>x\<bar>"
    using p by (simp add: le_log_iff)
  then show "2 powi binade x \<le> \<bar>x\<bar>" by (simp add: powr_real_of_int')
  define e1 where "e1 = binade x + 1"
  have "log 2 \<bar>x\<bar> < real_of_int e1" unfolding b e1_def by linarith
  then have "\<bar>x\<bar> < 2 powr real_of_int e1"
    using p by (simp add: log_less_iff)
  then show "\<bar>x\<bar> < 2 powi (binade x + 1)" unfolding powr_powi e1_def .
qed

lemma binade_unique:
  assumes "2 powi e \<le> \<bar>x\<bar>" "\<bar>x\<bar> < 2 powi (e + 1)"
  shows "binade x = e"
proof -
  have p: "0 < \<bar>x\<bar>" using assms(1) by (smt (verit) zero_less_power_int)
  then have nz: "x \<noteq> 0" by auto
  have "2 powr real_of_int e \<le> \<bar>x\<bar>" using assms(1) by (simp add: powr_real_of_int')
  then have l: "real_of_int e \<le> log 2 \<bar>x\<bar>" using p by (simp add: le_log_iff)
  define e1 where "e1 = e + 1"
  have "\<bar>x\<bar> < 2 powr real_of_int e1" using assms(2) unfolding powr_powi e1_def .
  then have "log 2 \<bar>x\<bar> < real_of_int e1" using p by (simp add: log_less_iff)
  then have u: "log 2 \<bar>x\<bar> < real_of_int (e + 1)" unfolding e1_def .
  have "\<lfloor>log 2 \<bar>x\<bar>\<rfloor> = e" using l u by (simp add: floor_unique)
  then show ?thesis using nz by (simp add: binade_def)
qed


lemma roundHalfEven_of_int [simp]: "roundHalfEven (of_int n) = n"
  by (simp add: roundHalfEven_def)

lemma roundHalfEven_pow2 [simp]: "roundHalfEven (2 ^ n) = 2 ^ n"
  using roundHalfEven_of_int [of "2 ^ n"] by simp

lemma powi_less_cancel:
  assumes "(2::real) powi a < 2 powi b"
  shows "a < b"
proof (rule ccontr)
  assume "\<not> a < b"
  then have "b \<le> a" by simp
  then have "(2::real) powi b \<le> 2 powi a" by (intro power_int_increasing) simp_all
  then show False using assms by simp
qed

lemma powi_mult: "(2::real) powi a * 2 powi b = 2 powi (a + b)"
  by (simp add: power_int_add)

lemma powi_div: "(2::real) powi a / 2 powi b = 2 powi (a - b)"
  by (simp add: power_int_diff)

lemma powi_nat: "(2::real) powi (int n) = real_of_int (2 ^ n)"
  by simp

lemma roundHalfEven_bounds: "\<lfloor>q\<rfloor> \<le> roundHalfEven q" "roundHalfEven q \<le> \<lfloor>q\<rfloor> + 1"
  by (simp_all add: roundHalfEven_def Let_def)

lemma roundHalfEven_mono:
  assumes "q \<le> r"
  shows "roundHalfEven q \<le> roundHalfEven r"
proof (cases "\<lfloor>q\<rfloor> = \<lfloor>r\<rfloor>")
  case True
  then show ?thesis using assms by (auto simp: roundHalfEven_def Let_def)
next
  case False
  then have "\<lfloor>q\<rfloor> < \<lfloor>r\<rfloor>" using floor_mono [OF assms] by simp
  then have "\<lfloor>q\<rfloor> + 1 \<le> \<lfloor>r\<rfloor>" by simp
  then show ?thesis using roundHalfEven_bounds(2) [of q] roundHalfEven_bounds(1) [of r] by linarith
qed

lemma roundTo_0 [simp]: "roundTo p 0 = 0"
  by (simp add: roundTo_def)

lemma roundTo_minus: "roundTo p (- x) = - roundTo p x"
  by (simp add: roundTo_def binade_def Let_def)

lemma roundTo_nonneg: "0 \<le> x \<Longrightarrow> 0 \<le> roundTo p x"
proof -
  assume x: "0 \<le> x"
  have "0 \<le> \<bar>x\<bar> / 2 powi (binade x - int p + 1)" by simp
  then have "roundHalfEven 0 \<le> roundHalfEven (\<bar>x\<bar> / 2 powi (binade x - int p + 1))"
    by (rule roundHalfEven_mono)
  then have "0 \<le> roundHalfEven (\<bar>x\<bar> / 2 powi (binade x - int p + 1))"
    using roundHalfEven_of_int [of 0] by simp
  then show ?thesis using x by (simp add: roundTo_def Let_def sgn_if)
qed

lemma roundTo_pos:
  assumes "0 < x"
  shows "roundTo p x = of_int (roundHalfEven (x / 2 powi (binade x - int p + 1)))
                        * 2 powi (binade x - int p + 1)"
  using assms by (simp add: roundTo_def Let_def)

lemma binade_mono:
  assumes "0 < x" "x \<le> y"
  shows "binade x \<le> binade y"
proof -
  have "2 powi binade x \<le> x" using binade_bounds(1) [of x] assms(1) by simp
  also have "x \<le> y" by fact
  also have "y < 2 powi (binade y + 1)" using binade_bounds(2) [of y] assms by simp
  finally have "(2::real) powi binade x < 2 powi (binade y + 1)" .
  then have "binade x < binade y + 1" by (rule powi_less_cancel)
  then show ?thesis by simp
qed

lemma roundTo_mono_pos:
  assumes "0 < x" "x \<le> y" "0 < p"
  shows "roundTo p x \<le> roundTo p y"
proof -
  have y: "0 < y" using assms by simp
  let ?ex = "binade x - int p + 1" and ?ey = "binade y - int p + 1"
  have b: "binade x \<le> binade y" using assms(1,2) by (rule binade_mono)
  show ?thesis
  proof (cases "binade x = binade y")
    case True
    have "x / 2 powi ?ex \<le> y / 2 powi ?ex" using assms(2) by (simp add: divide_right_mono)
    then have "roundHalfEven (x / 2 powi ?ex) \<le> roundHalfEven (y / 2 powi ?ex)"
      by (rule roundHalfEven_mono)
    then have "real_of_int (roundHalfEven (x / 2 powi ?ex)) * 2 powi ?ex
               \<le> real_of_int (roundHalfEven (y / 2 powi ?ex)) * 2 powi ?ex"
      by (simp add: mult_right_mono)
    then show ?thesis unfolding roundTo_pos [OF assms(1)] roundTo_pos [OF y] True .
  next
    case False
    then have lt: "binade x + 1 \<le> binade y" using b by simp
    have px: "binade x + 1 - ?ex = int p" and py: "binade y - ?ey = int (p - 1)"
      using assms(3) by simp_all
    have "x / 2 powi ?ex \<le> 2 powi (binade x + 1) / 2 powi ?ex"
      using binade_bounds(2) [of x] assms(1) by (simp add: divide_right_mono)
    also have "\<dots> = real_of_int (2 ^ p)" unfolding powi_div px powi_nat ..
    finally have "roundHalfEven (x / 2 powi ?ex) \<le> roundHalfEven (real_of_int (2 ^ p))"
      by (rule roundHalfEven_mono)
    then have "roundHalfEven (x / 2 powi ?ex) \<le> 2 ^ p"
      unfolding roundHalfEven_of_int .
    then have "real_of_int (roundHalfEven (x / 2 powi ?ex)) \<le> real_of_int (2 ^ p)"
      by (simp only: of_int_le_iff)
    then have "real_of_int (roundHalfEven (x / 2 powi ?ex)) * 2 powi ?ex
                 \<le> real_of_int (2 ^ p) * 2 powi ?ex"
      by (rule mult_right_mono) simp
    also have "\<dots> = 2 powi (binade x + 1)"
      unfolding powi_nat [symmetric] powi_mult by (simp add: algebra_simps)
    finally have ux: "roundTo p x \<le> 2 powi (binade x + 1)" unfolding roundTo_pos [OF assms(1)] .
    have "2 powi (binade y) / 2 powi ?ey \<le> y / 2 powi ?ey"
      using binade_bounds(1) [of y] y by (simp add: divide_right_mono)
    then have "real_of_int (2 ^ (p - 1)) \<le> y / 2 powi ?ey"
      unfolding powi_div py powi_nat .
    then have "roundHalfEven (real_of_int (2 ^ (p - 1))) \<le> roundHalfEven (y / 2 powi ?ey)"
      by (rule roundHalfEven_mono)
    then have "2 ^ (p - 1) \<le> roundHalfEven (y / 2 powi ?ey)"
      unfolding roundHalfEven_of_int .
    then have "real_of_int (2 ^ (p - 1)) \<le> real_of_int (roundHalfEven (y / 2 powi ?ey))"
      by (simp only: of_int_le_iff)
    then have "real_of_int (2 ^ (p - 1)) * 2 powi ?ey
                 \<le> real_of_int (roundHalfEven (y / 2 powi ?ey)) * 2 powi ?ey"
      by (rule mult_right_mono) simp
    moreover have "real_of_int (2 ^ (p - 1)) * 2 powi ?ey = (2::real) powi (binade y)"
      unfolding powi_nat [symmetric] powi_mult using assms(3) by (simp add: algebra_simps of_nat_diff)
    ultimately have ly: "2 powi (binade y) \<le> roundTo p y" unfolding roundTo_pos [OF y] by (simp only:)
    have "(2::real) powi (binade x + 1) \<le> 2 powi (binade y)"
      using lt by (intro power_int_increasing) simp_all
    then show ?thesis using ux ly by linarith
  qed
qed

lemma roundTo_mono:
  assumes "x \<le> y" "0 < p"
  shows "roundTo p x \<le> roundTo p y"
proof -
  consider "0 < x" | "x \<le> 0" "0 \<le> y" | "y < 0" by linarith
  then show ?thesis
  proof cases
    case 1
    then show ?thesis using assms by (rule roundTo_mono_pos)
  next
    case 2
    have "0 \<le> roundTo p (- x)" using 2(1) by (intro roundTo_nonneg) simp
    then have "roundTo p x \<le> 0" by (simp add: roundTo_minus)
    moreover have "0 \<le> roundTo p y" using 2(2) by (rule roundTo_nonneg)
    ultimately show ?thesis by simp
  next
    case 3
    then have "0 < - y" "- y \<le> - x" using assms(1) by simp_all
    then have "roundTo p (- y) \<le> roundTo p (- x)" using assms(2) by (rule roundTo_mono_pos)
    then show ?thesis by (simp add: roundTo_minus)
  qed
qed

lemma roundTo_exact:
  assumes "\<bar>m\<bar> < 2 ^ p"
  shows "roundTo p (real_of_int m * 2 powi e) = real_of_int m * 2 powi e"
proof (cases "m = 0")
  case True
  then show ?thesis by simp
next
  case False
  let ?x = "real_of_int m * 2 powi e"
  have nz: "?x \<noteq> 0" using False by simp
  have "\<bar>?x\<bar> = real_of_int \<bar>m\<bar> * 2 powi e" by (simp add: abs_mult)
  also have "\<dots> < real_of_int (2 ^ p) * 2 powi e"
  proof (rule mult_strict_right_mono)
    show "real_of_int \<bar>m\<bar> < real_of_int (2 ^ p)" using assms by (simp only: of_int_less_iff)
    show "(0::real) < 2 powi e" by simp
  qed
  also have "\<dots> = 2 powi (int p + e)" by (simp add: power_int_add)
  finally have "\<bar>?x\<bar> < 2 powi (int p + e)" .
  then have "(2::real) powi binade ?x < 2 powi (int p + e)"
    using binade_bounds(1) [OF nz] by linarith
  then have "binade ?x < int p + e" by (rule powi_less_cancel)
  let ?u = "binade ?x - int p + 1"
  define k where "k = nat (e - ?u)"
  have k: "e - ?u = int k" using \<open>binade ?x < int p + e\<close> unfolding k_def by simp
  have "\<bar>?x\<bar> / 2 powi ?u = real_of_int \<bar>m\<bar> * (2 powi e / 2 powi ?u)" by (simp add: abs_mult)
  also have "\<dots> = real_of_int \<bar>m\<bar> * real_of_int (2 ^ k)" unfolding powi_div k powi_nat ..
  also have "\<dots> = real_of_int (\<bar>m\<bar> * 2 ^ k)" by (simp only: of_int_mult)
  finally have q: "roundHalfEven (\<bar>?x\<bar> / 2 powi ?u) = \<bar>m\<bar> * 2 ^ k"
    by (simp only: roundHalfEven_of_int)
  have "real_of_int (2 ^ k) * 2 powi ?u = (2::real) powi e"
    unfolding powi_nat [symmetric] powi_mult k [symmetric] by (simp add: algebra_simps)
  then have "real_of_int (\<bar>m\<bar> * 2 ^ k) * 2 powi ?u = real_of_int \<bar>m\<bar> * 2 powi e"
    by (simp only: of_int_mult mult.assoc)
  then have "roundTo p ?x = sgn ?x * (real_of_int \<bar>m\<bar> * 2 powi e)"
    unfolding roundTo_def Let_def q by (simp only: mult.assoc)
  also have "real_of_int \<bar>m\<bar> * 2 powi e = \<bar>?x\<bar>" by (simp add: abs_mult)
  also have "sgn ?x * \<bar>?x\<bar> = ?x" by (rule sgn_mult_abs)
  finally show ?thesis .
qed


lemma binade_code [code]:
  "binade x =
     (if x = 0 then 0
      else if 1 \<le> \<bar>x\<bar> then bitlen \<lfloor>\<bar>x\<bar>\<rfloor> - 1
      else (let k = bitlen \<lfloor>1 / \<bar>x\<bar>\<rfloor> - 1
            in if \<bar>x\<bar> * 2 powi k = 1 then - k else - k - 1))"
proof -
  consider "x = 0" | "1 \<le> \<bar>x\<bar>" | "x \<noteq> 0" "\<bar>x\<bar> < 1" by linarith
  then show ?thesis
  proof cases
    case 1
    then show ?thesis by (simp add: binade_def)
  next
    case 2
    define n where "n = \<lfloor>\<bar>x\<bar>\<rfloor>"
    have n: "0 < n" unfolding n_def using 2 by simp
    then have b1: "1 \<le> bitlen n" using bitlen_nonneg [of n] bitlen_eq_zero_iff [of n] by linarith
    have lo: "real_of_int (2 ^ nat (bitlen n - 1)) \<le> real_of_int n"
      using bitlen_bounds [OF n] by (simp only: of_int_le_iff)
    have hi: "n + 1 \<le> 2 ^ nat (bitlen n)" using bitlen_bounds [OF n] by simp
    have e1: "int (nat (bitlen n - 1)) = bitlen n - 1" and e2: "int (nat (bitlen n)) = bitlen n - 1 + 1"
      using b1 by simp_all
    have "real_of_int n \<le> \<bar>x\<bar>" unfolding n_def by simp
    then have l: "2 powi (bitlen n - 1) \<le> \<bar>x\<bar>"
      using lo unfolding powi_nat [symmetric] e1 by linarith
    have "\<bar>x\<bar> < real_of_int (n + 1)" unfolding n_def by linarith
    also have "\<dots> \<le> real_of_int (2 ^ nat (bitlen n))" using hi by (simp only: of_int_le_iff)
    finally have u: "\<bar>x\<bar> < 2 powi (bitlen n - 1 + 1)" unfolding powi_nat [symmetric] e2 .
    have "binade x = bitlen n - 1" using l u by (rule binade_unique)
    then show ?thesis using 2 unfolding n_def by auto
  next
    case 3
    have xp: "0 < \<bar>x\<bar>" using 3(1) by simp
    define n where "n = \<lfloor>1 / \<bar>x\<bar>\<rfloor>"
    define k where "k = bitlen n - 1"
    have "1 \<le> 1 / \<bar>x\<bar>" using 3(2) xp by (simp add: le_divide_eq)
    then have n: "0 < n" unfolding n_def by simp
    then have b1: "1 \<le> bitlen n" using bitlen_nonneg [of n] bitlen_eq_zero_iff [of n] by linarith
    have lo: "real_of_int (2 ^ nat (bitlen n - 1)) \<le> real_of_int n"
      using bitlen_bounds [OF n] by (simp only: of_int_le_iff)
    have hi: "n + 1 \<le> 2 ^ nat (bitlen n)" using bitlen_bounds [OF n] by simp
    have e1: "int (nat (bitlen n - 1)) = k" and e2: "int (nat (bitlen n)) = k + 1"
      using b1 unfolding k_def by simp_all
    have "real_of_int n \<le> 1 / \<bar>x\<bar>" unfolding n_def by simp
    then have l: "2 powi k \<le> 1 / \<bar>x\<bar>"
      using lo unfolding powi_nat [symmetric] e1 by linarith
    have "1 / \<bar>x\<bar> < real_of_int (n + 1)" unfolding n_def by linarith
    also have "\<dots> \<le> real_of_int (2 ^ nat (bitlen n))" using hi by (simp only: of_int_le_iff)
    finally have u: "1 / \<bar>x\<bar> < 2 powi (k + 1)" unfolding powi_nat [symmetric] e2 .
    have pk: "(0::real) < 2 powi k" "(0::real) < 2 powi (k + 1)" by simp_all
    have l': "\<bar>x\<bar> * 2 powi k \<le> 1" using l xp by (simp add: le_divide_eq mult.commute)
    have u': "1 < \<bar>x\<bar> * 2 powi (k + 1)" using u xp by (simp add: divide_less_eq mult.commute)
    have inv: "(2::real) powi (- k) * 2 powi k = 1" "(2::real) powi (- k - 1) * 2 powi (k + 1) = 1"
      unfolding powi_mult by simp_all
    show ?thesis
    proof (cases "\<bar>x\<bar> * 2 powi k = 1")
      case True
      then have "\<bar>x\<bar> = 2 powi (- k)" using inv(1) pk(1)
        by (metis mult_cancel_right less_numeral_extra(3))
      then have "2 powi (- k) \<le> \<bar>x\<bar>" "\<bar>x\<bar> < 2 powi (- k + 1)"
        by (simp_all add: power_int_strict_increasing)
      then have "binade x = - k" by (rule binade_unique)
      then show ?thesis using 3 True unfolding n_def k_def by (simp add: Let_def)
    next
      case False
      then have "\<bar>x\<bar> * 2 powi k < 2 powi (- k) * 2 powi k" using l' inv(1) by linarith
      then have "\<bar>x\<bar> < 2 powi (- k)" using pk(1) by (simp only: mult_less_cancel_right_pos)
      then have a: "\<bar>x\<bar> < 2 powi (- k - 1 + 1)" by simp
      have "2 powi (- k - 1) * 2 powi (k + 1) < \<bar>x\<bar> * 2 powi (k + 1)" using u' inv(2) by linarith
      then have "2 powi (- k - 1) < \<bar>x\<bar>" using pk(2) by (simp only: mult_less_cancel_right_pos)
      then have "2 powi (- k - 1) \<le> \<bar>x\<bar>" by simp
      then have "binade x = - k - 1" using a by (rule binade_unique)
      then show ?thesis using 3 False unfolding n_def k_def by (simp add: Let_def)
    qed
  qed
qed

section \<open>The order of distances\<close>

lemma dle_refl [simp]: "dle a a"
  by (cases a) (simp_all add: dle_def)

lemma dle_trans: "dle a b \<Longrightarrow> dle b c \<Longrightarrow> dle a c"
  by (cases a; cases b; cases c) (simp_all add: dle_def)

lemma dle_antisym: "dle a b \<Longrightarrow> dle b a \<Longrightarrow> a = b"
  by (cases a; cases b) (simp_all add: dle_def)

lemma dle_Infinity [simp]: "dle a Infinity"
  by (cases a) (simp_all add: dle_def)

lemma dle_Finite [simp]: "dle (Finite a) (Finite b) \<longleftrightarrow> a \<le> b"
  by (auto simp: dle_def)

lemma dle_Infinity_left [simp]: "dle Infinity a \<longleftrightarrow> a = Infinity"
  by (cases a) (simp_all add: dle_def)

lemma dmin_eq_left: "dle a b \<Longrightarrow> dmin a b = a"
  by (simp add: dmin_def dle_def)

lemma dmin_eq_right: "dle b a \<Longrightarrow> dmin a b = b"
  by (cases a; cases b) (auto simp: dmin_def dle_def)

lemma fold_min_le_init:
  "dle (fold (\<lambda>c m. if dless (f c) m then f c else m) cs m0) m0"
proof (induction cs arbitrary: m0)
  case Nil
  then show ?case by simp
next
  case (Cons c cs)
  define m1 where "m1 = (if dless (f c) m0 then f c else m0)"
  have "dle m1 m0" unfolding m1_def by (cases "f c"; cases m0) (simp_all add: dle_def)
  moreover have "dle (fold (\<lambda>c m. if dless (f c) m then f c else m) cs m1) m1" by (rule Cons)
  ultimately have "dle (fold (\<lambda>c m. if dless (f c) m then f c else m) cs m1) m0"
    by (meson dle_trans)
  then show ?case unfolding m1_def by simp
qed

lemma fold_min_le:
  assumes "c \<in> set cs"
  shows "dle (fold (\<lambda>c m. if dless (f c) m then f c else m) cs m0) (f c)"
  using assms
proof (induction cs arbitrary: m0)
  case Nil
  then show ?case by simp
next
  case (Cons a cs)
  define m1 where "m1 = (if dless (f a) m0 then f a else m0)"
  show ?case
  proof (cases "c = a")
    case True
    have "dle m1 (f a)" unfolding m1_def by (cases "f a"; cases m0) (simp_all add: dle_def)
    moreover have "dle (fold (\<lambda>c m. if dless (f c) m then f c else m) cs m1) m1"
      by (rule fold_min_le_init)
    ultimately have "dle (fold (\<lambda>c m. if dless (f c) m then f c else m) cs m1) (f a)"
      by (meson dle_trans)
    then show ?thesis unfolding m1_def True by simp
  next
    case False
    then have "c \<in> set cs" using Cons.prems by simp
    then have "dle (fold (\<lambda>c m. if dless (f c) m then f c else m) cs m1) (f c)" by (rule Cons.IH)
    then show ?thesis unfolding m1_def by simp
  qed
qed

lemma fold_min_ge:
  assumes "dle b m0" "\<And>c. c \<in> set cs \<Longrightarrow> dle b (f c)"
  shows "dle b (fold (\<lambda>c m. if dless (f c) m then f c else m) cs m0)"
  using assms
proof (induction cs arbitrary: m0)
  case Nil
  then show ?case by simp
next
  case (Cons a cs)
  have "dle b (if dless (f a) m0 then f a else m0)" using Cons.prems by simp
  then show ?case using Cons.IH [of "if dless (f a) m0 then f a else m0"] Cons.prems(2) by simp
qed

section \<open>Rounded constants\<close>

lemma fl64_mono: "x \<le> y \<Longrightarrow> fl64 x \<le> fl64 y"
  unfolding fl64_def by (rule roundTo_mono) simp_all

lemma fl32_mono: "x \<le> y \<Longrightarrow> fl32 x \<le> fl32 y"
  unfolding fl32_def by (rule roundTo_mono) simp_all

lemma fl_small:
  "fl64 0 = 0" "fl64 1 = 1" "fl64 2 = 2" "fl32 1 = 1" "fl32 2 = 2"
  "fl64 sqrt2_double = sqrt2_double"
  "fl32 sqrt2_double = sqrt2_single"
  "fl64 sqrt2_single = sqrt2_single"
  "fl32 sqrt2_single = sqrt2_single"
  by code_simp+

lemma sqrt2_order:
  "1 \<le> sqrt2_single" "sqrt2_single < sqrt2_double" "sqrt2_double < 2" "sqrt2_single < 2"
  "sqrt2_single \<noteq> 0" "1 \<le> sqrt2_double"
  by (simp_all add: sqrt2_single_def sqrt2_double_def)

lemma roundHalfEven_near:
  assumes "real_of_int n - 1 / 2 < q" "q < real_of_int n + 1 / 2"
  shows "roundHalfEven q = n"
proof -
  have "\<lfloor>q\<rfloor> = n \<or> \<lfloor>q\<rfloor> = n - 1" using assms by linarith
  then show ?thesis
  proof
    assume f: "\<lfloor>q\<rfloor> = n"
    then show ?thesis using assms by (simp add: roundHalfEven_def Let_def)
  next
    assume f: "\<lfloor>q\<rfloor> = n - 1"
    then show ?thesis using assms by (simp add: roundHalfEven_def Let_def)
  qed
qed

lemma sqrt2_bounds:
  "12738103345051545 / 2 ^ 53 < sqrt 2" "sqrt 2 < 12738103345051547 / 2 ^ 53"
proof -
  have "(12738103345051545 / 2 ^ 53)\<^sup>2 < (2::real)" by (simp add: power2_eq_square)
  then show "12738103345051545 / 2 ^ 53 < sqrt 2" by (rule real_less_rsqrt)
  have "(2::real) < (12738103345051547 / 2 ^ 53)\<^sup>2" by (simp add: power2_eq_square)
  then show "sqrt 2 < 12738103345051547 / 2 ^ 53" by (intro real_less_lsqrt) simp_all
qed

lemma fl64_sqrt2: "fl64 (sqrt 2) = sqrt2_double"
proof -
  have b: "binade (sqrt 2) = 0"
  proof (rule binade_unique)
    show "2 powi 0 \<le> \<bar>sqrt 2\<bar>" by simp
    have "sqrt 2 < 2" by (intro real_less_lsqrt) simp_all
    then show "\<bar>sqrt 2\<bar> < 2 powi (0 + 1)" by simp
  qed
  have u: "(2::real) powi (0 - int 53 + 1) = 1 / 2 ^ 52" by (simp add: power_int_def field_simps)
  have "roundHalfEven (sqrt 2 * 2 ^ 52) = 6369051672525773"
    using sqrt2_bounds by (intro roundHalfEven_near) (simp_all add: field_simps)
  then show ?thesis
    unfolding fl64_def roundTo_def b u Let_def sqrt2_double_def by simp
qed

lemma stepLength_values:
  "stepLength 0 0 = 0"
  "stepLength 0 1 = 1" "stepLength 0 (- 1) = 1" "stepLength 1 0 = 1" "stepLength (- 1) 0 = 1"
  "stepLength 1 1 = sqrt2_double" "stepLength 1 (- 1) = sqrt2_double"
  "stepLength (- 1) 1 = sqrt2_double" "stepLength (- 1) (- 1) = sqrt2_double"
  by (simp_all add: stepLength_def fl_small fl64_sqrt2)


section \<open>The candidates of a relaxation step\<close>

lemma minDist_cand:
  "minDist distances width y x =
     fold (\<lambda>c m. if dless (cand distances width y x c) m then cand distances width y x c else m)
       (List.product [-1..1] [-1..1]) Infinity"
proof -
  have "(\<lambda>(dy, dx) minDist.
        (case rd distances ((int y + dy) * int width + (int x + dx)) of
           None \<Rightarrow> minDist
         | Some d \<Rightarrow>
             (let dist = dplus d (stepLength dx dy)
              in if dless dist minDist then dist else minDist)))
      = (\<lambda>c m. if dless (cand distances width y x c) m then cand distances width y x c else m)"
    by (intro ext) (simp add: cand_def Let_def case_prod_unfold split: option.split)
  then show ?thesis unfolding minDist_def by (simp only:)
qed

lemma offsets_iff:
  "(dy, dx) \<in> set (List.product [a..b] [c..d]) \<longleftrightarrow> a \<le> dy \<and> dy \<le> b \<and> c \<le> dx \<and> dx \<le> d"
  by auto

lemma offset_cases:
  fixes dy dx :: int
  assumes "-1 \<le> dy" "dy \<le> 1" "-1 \<le> dx" "dx \<le> 1"
  shows "(dy = -1 \<or> dy = 0 \<or> dy = 1) \<and> (dx = -1 \<or> dx = 0 \<or> dx = 1)"
  using assms by linarith

lemma step_ge1:
  fixes dy dx :: int
  assumes "-1 \<le> dy" "dy \<le> 1" "-1 \<le> dx" "dx \<le> 1" "\<not> (dy = 0 \<and> dx = 0)"
  shows "1 \<le> stepLength dx dy"
  using offset_cases [OF assms(1-4)] assms(5) sqrt2_order(6) by (auto simp: stepLength_values)

lemma neighbour_index:
  fixes dy dx :: int
  assumes "1 \<le> x" "x + 1 < width" "1 \<le> y" "y + 1 < height"
    and "-1 \<le> dy" "dy \<le> 1" "-1 \<le> dx" "dx \<le> 1"
  shows "nat (int y + dy) < height" "nat (int x + dx) < width"
    "(int y + dy) * int width + (int x + dx) = int (nat (int y + dy) * width + nat (int x + dx))"
    "nat (int y + dy) * width + nat (int x + dx) < width * height"
proof -
  show h: "nat (int y + dy) < height" using assms by linarith
  show w: "nat (int x + dx) < width" using assms by linarith
  have "0 \<le> int y + dy" "0 \<le> int x + dx" using assms by linarith+
  then show "(int y + dy) * int width + (int x + dx)
               = int (nat (int y + dy) * width + nat (int x + dx))"
    by simp
  show "nat (int y + dy) * width + nat (int x + dx) < width * height"
    using w h by (rule pixel_index_bound)
qed

lemma cand_neighbour:
  fixes dy dx :: int
  assumes "length D = width * height"
    and "1 \<le> x" "x + 1 < width" "1 \<le> y" "y + 1 < height"
    and "-1 \<le> dy" "dy \<le> 1" "-1 \<le> dx" "dx \<le> 1"
  shows "cand D width y x (dy, dx)
           = dplus (D ! (nat (int y + dy) * width + nat (int x + dx))) (stepLength dx dy)"
proof -
  note n = neighbour_index [OF assms(2-9)]
  have "rd D (int (nat (int y + dy) * width + nat (int x + dx)))
          = Some (D ! (nat (int y + dy) * width + nat (int x + dx)))"
    using n(4) assms(1) by (intro rd_in_range) simp
  then show ?thesis unfolding cand_def fst_conv snd_conv n(3) by simp
qed

lemma admissible_edge:
  assumes "admissible mask' width height D y x" "edgePixel mask' width height y x"
  shows "D ! (y * width + x) = Finite 0"
  using assms by (simp add: admissible_def nearDistance_def)

lemma admissible_other:
  assumes "admissible mask' width height D y x" "\<not> edgePixel mask' width height y x"
  shows "dle (Finite 1) (D ! (y * width + x))"
proof (cases "nearDistance mask' width height y x")
  case None
  then have "dle (Finite 2) (D ! (y * width + x))" using assms(1) by (simp add: admissible_def)
  moreover have "dle (Finite 1) (Finite 2)" by simp
  ultimately show ?thesis by (meson dle_trans)
next
  case (Some d)
  then have "d = 1 \<or> d = sqrt2_single"
    using assms(2) by (auto simp: nearDistance_def split: if_splits)
  then have "1 \<le> d" using sqrt2_order(1) by auto
  moreover have "D ! (y * width + x) = Finite d \<or> D ! (y * width + x) = Infinity"
    using assms(1) Some by (auto simp: admissible_def)
  ultimately show ?thesis by auto
qed

lemma dplus_ge:
  assumes "dle (Finite a) d" "b \<le> r" "fl64 (a + b) = a + b"
  shows "dle (Finite (a + b)) (dplus d r)"
proof (cases d)
  case (Finite v)
  then have "a \<le> v" using assms(1) by simp
  then have "fl64 (a + b) \<le> fl64 (v + r)" using assms(2) by (intro fl64_mono) linarith
  then show ?thesis using Finite assms(3) by simp
next
  case Infinity
  then show ?thesis by simp
qed


lemma cand_other:
  fixes dy dx :: int
  assumes len: "length D = width * height"
    and int: "1 \<le> x" "x + 1 < width" "1 \<le> y" "y + 1 < height"
    and off: "-1 \<le> dy" "dy \<le> 1" "-1 \<le> dx" "dx \<le> 1" "\<not> (dy = 0 \<and> dx = 0)"
    and adm: "admissible mask' width height D (nat (int y + dy)) (nat (int x + dx))"
    and ne: "\<not> edgePixel mask' width height (nat (int y + dy)) (nat (int x + dx))"
  shows "dle (Finite 2) (cand D width y x (dy, dx))"
proof -
  have "dle (Finite 1) (D ! (nat (int y + dy) * width + nat (int x + dx)))"
    using adm ne by (rule admissible_other)
  moreover have "1 \<le> stepLength dx dy" using off by (rule step_ge1)
  moreover have "fl64 (1 + 1) = 1 + 1" using fl_small(3) by simp
  ultimately have "dle (Finite (1 + 1))
      (dplus (D ! (nat (int y + dy) * width + nat (int x + dx))) (stepLength dx dy))"
    by (rule dplus_ge)
  then show ?thesis unfolding cand_neighbour [OF len int off(1-4)] by simp
qed

lemma cand_edge:
  fixes dy dx :: int
  assumes len: "length D = width * height"
    and int: "1 \<le> x" "x + 1 < width" "1 \<le> y" "y + 1 < height"
    and off: "-1 \<le> dy" "dy \<le> 1" "-1 \<le> dx" "dx \<le> 1"
    and adm: "admissible mask' width height D (nat (int y + dy)) (nat (int x + dx))"
    and e: "edgePixel mask' width height (nat (int y + dy)) (nat (int x + dx))"
  shows "cand D width y x (dy, dx) = Finite (stepLength dx dy)"
proof -
  have "D ! (nat (int y + dy) * width + nat (int x + dx)) = Finite 0"
    using adm e by (rule admissible_edge)
  moreover have "fl64 (stepLength dx dy) = stepLength dx dy"
    using offset_cases [OF off] by (auto simp: stepLength_values fl_small)
  ultimately show ?thesis unfolding cand_neighbour [OF len int off] by simp
qed

lemma cand_self:
  assumes len: "length D = width * height"
    and int: "1 \<le> x" "x + 1 < width" "1 \<le> y" "y + 1 < height"
  shows "cand D width y x (0, 0)
           = (case D ! (y * width + x) of Finite v \<Rightarrow> Finite (fl64 v) | Infinity \<Rightarrow> Infinity)"
  using cand_neighbour [OF len int, of 0 0]
  by (simp add: stepLength_values split: distance.split)


section \<open>One relaxation step\<close>

lemma beside_obtain:
  assumes "edgeAmong mask' width height y x [(-1, 0), (0, -1), (0, 1), (1, 0)]"
  obtains dy dx :: int where "-1 \<le> dy" "dy \<le> 1" "-1 \<le> dx" "dx \<le> 1"
    "edgePixel mask' width height (nat (int y + dy)) (nat (int x + dx))" "stepLength dx dy = 1"
proof -
  from assms have "edgePixel mask' width height (nat (int y + (- 1))) (nat (int x + 0))
      \<or> edgePixel mask' width height (nat (int y + 0)) (nat (int x + (- 1)))
      \<or> edgePixel mask' width height (nat (int y + 0)) (nat (int x + 1))
      \<or> edgePixel mask' width height (nat (int y + 1)) (nat (int x + 0))"
    by (simp add: edgeAmong_def)
  then show thesis
  proof (elim disjE)
    assume "edgePixel mask' width height (nat (int y + (- 1))) (nat (int x + 0))"
    then show thesis using that [of "- 1" 0] by (simp add: stepLength_values)
  next
    assume "edgePixel mask' width height (nat (int y + 0)) (nat (int x + (- 1)))"
    then show thesis using that [of 0 "- 1"] by (simp add: stepLength_values)
  next
    assume "edgePixel mask' width height (nat (int y + 0)) (nat (int x + 1))"
    then show thesis using that [of 0 1] by (simp add: stepLength_values)
  next
    assume "edgePixel mask' width height (nat (int y + 1)) (nat (int x + 0))"
    then show thesis using that [of 1 0] by (simp add: stepLength_values)
  qed
qed

lemma diagonal_obtain:
  assumes "edgeAmong mask' width height y x [(-1, -1), (-1, 1), (1, -1), (1, 1)]"
  obtains dy dx :: int where "-1 \<le> dy" "dy \<le> 1" "-1 \<le> dx" "dx \<le> 1"
    "edgePixel mask' width height (nat (int y + dy)) (nat (int x + dx))"
    "stepLength dx dy = sqrt2_double"
proof -
  from assms have "edgePixel mask' width height (nat (int y + (- 1))) (nat (int x + (- 1)))
      \<or> edgePixel mask' width height (nat (int y + (- 1))) (nat (int x + 1))
      \<or> edgePixel mask' width height (nat (int y + 1)) (nat (int x + (- 1)))
      \<or> edgePixel mask' width height (nat (int y + 1)) (nat (int x + 1))"
    by (simp add: edgeAmong_def)
  then show thesis
  proof (elim disjE)
    assume "edgePixel mask' width height (nat (int y + (- 1))) (nat (int x + (- 1)))"
    then show thesis using that [of "- 1" "- 1"] by (simp add: stepLength_values)
  next
    assume "edgePixel mask' width height (nat (int y + (- 1))) (nat (int x + 1))"
    then show thesis using that [of "- 1" 1] by (simp add: stepLength_values)
  next
    assume "edgePixel mask' width height (nat (int y + 1)) (nat (int x + (- 1)))"
    then show thesis using that [of 1 "- 1"] by (simp add: stepLength_values)
  next
    assume "edgePixel mask' width height (nat (int y + 1)) (nat (int x + 1))"
    then show thesis using that [of 1 1] by (simp add: stepLength_values)
  qed
qed

lemma offset_edge_class:
  fixes dy dx :: int
  assumes "-1 \<le> dy" "dy \<le> 1" "-1 \<le> dx" "dx \<le> 1" "\<not> (dy = 0 \<and> dx = 0)"
    and "edgePixel mask' width height (nat (int y + dy)) (nat (int x + dx))"
  shows "edgeAmong mask' width height y x [(-1, 0), (0, -1), (0, 1), (1, 0)]
       \<or> edgeAmong mask' width height y x [(-1, -1), (-1, 1), (1, -1), (1, 1)]
         \<and> stepLength dx dy = sqrt2_double"
  using offset_cases [OF assms(1-4)] assms(5,6)
  by (auto simp: edgeAmong_def stepLength_values)

lemma admissible_settled:
  assumes "admissible mask' width height D y x"
    and "D ! (y * width + x) \<noteq> Infinity \<or> nearDistance mask' width height y x = None"
  shows "settled mask' width height D y x"
  using assms by (auto simp: admissible_def settled_def split: option.splits)

lemma settled_admissible:
  "settled mask' width height D y x \<Longrightarrow> admissible mask' width height D y x"
  by (auto simp: admissible_def settled_def split: option.splits)

lemma relax_other: "k \<noteq> y * width + x \<Longrightarrow> relax mask' width y x D ! k = D ! k"
  by (simp add: relax_def)

lemma relax_length [simp]: "length (relax mask' width y x D) = length D"
  by (simp add: relax_def)

lemma cand_other':
  fixes c :: "int \<times> int"
  assumes "length D = width * height"
    and "1 \<le> x" "x + 1 < width" "1 \<le> y" "y + 1 < height"
    and "-1 \<le> fst c" "fst c \<le> 1" "-1 \<le> snd c" "snd c \<le> 1" "\<not> (fst c = 0 \<and> snd c = 0)"
    and "admissible mask' width height D (nat (int y + fst c)) (nat (int x + snd c))"
    and "\<not> edgePixel mask' width height (nat (int y + fst c)) (nat (int x + snd c))"
  shows "dle (Finite 2) (cand D width y x c)"
  using cand_other [OF assms] by simp

lemma cand_edge':
  fixes c :: "int \<times> int"
  assumes "length D = width * height"
    and "1 \<le> x" "x + 1 < width" "1 \<le> y" "y + 1 < height"
    and "-1 \<le> fst c" "fst c \<le> 1" "-1 \<le> snd c" "snd c \<le> 1"
    and "admissible mask' width height D (nat (int y + fst c)) (nat (int x + snd c))"
    and "edgePixel mask' width height (nat (int y + fst c)) (nat (int x + snd c))"
  shows "cand D width y x c = Finite (stepLength (snd c) (fst c))"
  using cand_edge [OF assms] by simp

lemma offsets_mem:
  fixes c :: "int \<times> int"
  shows "c \<in> set (List.product [-1..1] [-1..1])
         \<longleftrightarrow> -1 \<le> fst c \<and> fst c \<le> 1 \<and> -1 \<le> snd c \<and> snd c \<le> 1"
  using offsets_iff [of "fst c" "snd c" "-1" 1 "-1" 1] by (simp only: prod.collapse)

text \<open>The nine step lengths as a table, which makes \<open>minDist\<close> computable.\<close>

lemma minDist_code [code]:
  "minDist distances width y x =
     fold (\<lambda>(dy, dx) minDist.
        (case rd distances ((int y + dy) * int width + (int x + dx)) of
           None \<Rightarrow> minDist
         | Some d \<Rightarrow>
             (let dist = dplus d (if dx = 0 \<and> dy = 0 then 0
                                  else if dx = 0 \<or> dy = 0 then 1 else sqrt2_double)
              in if dless dist minDist then dist else minDist)))
      (List.product [-1..1] [-1..1]) Infinity"
  unfolding minDist_def
proof (rule fold_cong [OF refl refl])
  fix c :: "int \<times> int"
  assume "c \<in> set (List.product [-1..1] [-1..1])"
  then have b: "-1 \<le> fst c" "fst c \<le> 1" "-1 \<le> snd c" "snd c \<le> 1"
    unfolding offsets_mem by simp_all
  have st: "stepLength (snd c) (fst c)
          = (if snd c = 0 \<and> fst c = 0 then 0
             else if snd c = 0 \<or> fst c = 0 then 1 else sqrt2_double)"
    using offset_cases [OF b] by (auto simp: stepLength_values)
  show "(case c of (dy, dx) \<Rightarrow> \<lambda>minDist.
        (case rd distances ((int y + dy) * int width + (int x + dx)) of
           None \<Rightarrow> minDist
         | Some d \<Rightarrow>
             (let dist = dplus d (stepLength dx dy)
              in if dless dist minDist then dist else minDist)))
     = (case c of (dy, dx) \<Rightarrow> \<lambda>minDist.
        (case rd distances ((int y + dy) * int width + (int x + dx)) of
           None \<Rightarrow> minDist
         | Some d \<Rightarrow>
             (let dist = dplus d (if dx = 0 \<and> dy = 0 then 0
                                  else if dx = 0 \<or> dy = 0 then 1 else sqrt2_double)
              in if dless dist minDist then dist else minDist)))"
    unfolding case_prod_unfold st ..
qed

lemma minDist_le:
  assumes "-1 \<le> fst c" "fst c \<le> 1" "-1 \<le> snd c" "snd c \<le> 1"
  shows "dle (minDist D width y x) (cand D width y x c)"
proof -
  have "c \<in> set (List.product [-1..1] [-1..1])" unfolding offsets_mem using assms by simp
  then show ?thesis unfolding minDist_cand by (rule fold_min_le)
qed

lemma minDist_ge:
  assumes "\<And>c. -1 \<le> fst c \<Longrightarrow> fst c \<le> 1 \<Longrightarrow> -1 \<le> snd c \<Longrightarrow> snd c \<le> 1
                \<Longrightarrow> dle b (cand D width y x c)"
  shows "dle b (minDist D width y x)"
  unfolding minDist_cand
proof (rule fold_min_ge)
  show "dle b Infinity" by simp
  fix c :: "int \<times> int" assume "c \<in> set (List.product [-1..1] [-1..1])"
  then have "-1 \<le> fst c" "fst c \<le> 1" "-1 \<le> snd c" "snd c \<le> 1"
    unfolding offsets_mem by simp_all
  then show "dle b (cand D width y x c)" by (rule assms)
qed

lemma relax_beside:
  assumes len: "length D = width * height"
    and int: "1 \<le> x" "x + 1 < width" "1 \<le> y" "y + 1 < height"
    and adm: "\<And>qy qx. qy < height \<Longrightarrow> qx < width \<Longrightarrow> admissible mask' width height D qy qx"
    and ne: "\<not> edgePixel mask' width height y x"
    and own: "D ! (y * width + x) = Finite 1 \<or> D ! (y * width + x) = Infinity"
    and beside: "edgeAmong mask' width height y x [(-1, 0), (0, -1), (0, 1), (1, 0)]"
  shows "toFloat32 (dmin (D ! (y * width + x)) (minDist D width y x)) = Finite 1"
proof -
  let ?idx = "y * width + x"
  have nadm: "admissible mask' width height D (nat (int y + dy)) (nat (int x + dx))"
    if "-1 \<le> dy" "dy \<le> 1" "-1 \<le> dx" "dx \<le> 1" for dy dx :: int
    using neighbour_index(1,2) [OF int that] by (rule adm)
  have selfc: "cand D width y x (0, 0)
         = (case D ! ?idx of Finite v \<Rightarrow> Finite (fl64 v) | Infinity \<Rightarrow> Infinity)"
    using len int by (rule cand_self)
  from beside obtain dy dx :: int where o: "-1 \<le> dy" "dy \<le> 1" "-1 \<le> dx" "dx \<le> 1"
    and e: "edgePixel mask' width height (nat (int y + dy)) (nat (int x + dx))"
    and st: "stepLength dx dy = 1"
    by (rule beside_obtain)
  have ce: "cand D width y x (dy, dx) = Finite 1"
    unfolding cand_edge [OF len int o nadm [OF o] e] st ..
  have "dle (minDist D width y x) (cand D width y x (dy, dx))"
    by (rule minDist_le) (simp_all add: o)
  then have up: "dle (minDist D width y x) (Finite 1)" unfolding ce .
  have low: "dle (Finite 1) (minDist D width y x)"
  proof (rule minDist_ge)
    fix c :: "int \<times> int"
    assume b: "-1 \<le> fst c" "fst c \<le> 1" "-1 \<le> snd c" "snd c \<le> 1"
    show "dle (Finite 1) (cand D width y x c)"
    proof (cases "fst c = 0 \<and> snd c = 0")
      case True
      then have c0: "c = (0, 0)" by (simp add: prod_eq_iff)
      from own show ?thesis unfolding c0 selfc by (auto simp: fl_small)
    next
      case False
      show ?thesis
      proof (cases "edgePixel mask' width height (nat (int y + fst c)) (nat (int x + snd c))")
        case True
        have "cand D width y x c = Finite (stepLength (snd c) (fst c))"
          using len int b nadm [OF b] True by (rule cand_edge')
        then show ?thesis using step_ge1 [OF b False] by simp
      next
        case ne': False
        have "dle (Finite 2) (cand D width y x c)"
          using len int b False nadm [OF b] ne' by (rule cand_other')
        moreover have "dle (Finite 1) (Finite 2)" by simp
        ultimately show ?thesis using dle_trans by blast
      qed
    qed
  qed
  have md: "minDist D width y x = Finite 1" using up low by (rule dle_antisym)
  from own show ?thesis unfolding md by (auto simp: dmin_def fl_small)
qed

lemma relax_diagonal:
  assumes len: "length D = width * height"
    and int: "1 \<le> x" "x + 1 < width" "1 \<le> y" "y + 1 < height"
    and adm: "\<And>qy qx. qy < height \<Longrightarrow> qx < width \<Longrightarrow> admissible mask' width height D qy qx"
    and ne: "\<not> edgePixel mask' width height y x"
    and own: "D ! (y * width + x) = Finite sqrt2_single \<or> D ! (y * width + x) = Infinity"
    and nb: "\<not> edgeAmong mask' width height y x [(-1, 0), (0, -1), (0, 1), (1, 0)]"
    and diag: "edgeAmong mask' width height y x [(-1, -1), (-1, 1), (1, -1), (1, 1)]"
  shows "toFloat32 (dmin (D ! (y * width + x)) (minDist D width y x)) = Finite sqrt2_single"
proof -
  let ?idx = "y * width + x"
  have nadm: "admissible mask' width height D (nat (int y + dy)) (nat (int x + dx))"
    if "-1 \<le> dy" "dy \<le> 1" "-1 \<le> dx" "dx \<le> 1" for dy dx :: int
    using neighbour_index(1,2) [OF int that] by (rule adm)
  have selfc: "cand D width y x (0, 0)
         = (case D ! ?idx of Finite v \<Rightarrow> Finite (fl64 v) | Infinity \<Rightarrow> Infinity)"
    using len int by (rule cand_self)
  from diag obtain dy dx :: int where o: "-1 \<le> dy" "dy \<le> 1" "-1 \<le> dx" "dx \<le> 1"
    and e: "edgePixel mask' width height (nat (int y + dy)) (nat (int x + dx))"
    and st: "stepLength dx dy = sqrt2_double"
    by (rule diagonal_obtain)
  have ce: "cand D width y x (dy, dx) = Finite sqrt2_double"
    unfolding cand_edge [OF len int o nadm [OF o] e] st ..
  have "dle (minDist D width y x) (cand D width y x (dy, dx))"
    by (rule minDist_le) (simp_all add: o)
  then have up: "dle (minDist D width y x) (Finite sqrt2_double)" unfolding ce .
  have others: "dle (Finite sqrt2_double) (cand D width y x c)"
    if b: "-1 \<le> fst c" "fst c \<le> 1" "-1 \<le> snd c" "snd c \<le> 1" and nz: "\<not> (fst c = 0 \<and> snd c = 0)"
    for c :: "int \<times> int"
  proof (cases "edgePixel mask' width height (nat (int y + fst c)) (nat (int x + snd c))")
    case True
    have "cand D width y x c = Finite (stepLength (snd c) (fst c))"
      using len int b nadm [OF b] True by (rule cand_edge')
    moreover have "stepLength (snd c) (fst c) = sqrt2_double"
      using offset_edge_class [OF b nz True] nb by blast
    ultimately show ?thesis by simp
  next
    case ne': False
    have "dle (Finite 2) (cand D width y x c)"
      using len int b nz nadm [OF b] ne' by (rule cand_other')
    moreover have "dle (Finite sqrt2_double) (Finite 2)" using sqrt2_order(3) by simp
    ultimately show ?thesis using dle_trans by blast
  qed
  from own show ?thesis
  proof
    assume f: "D ! ?idx = Finite sqrt2_single"
    have "dle (Finite sqrt2_single) (minDist D width y x)"
    proof (rule minDist_ge)
      fix c :: "int \<times> int"
      assume b: "-1 \<le> fst c" "fst c \<le> 1" "-1 \<le> snd c" "snd c \<le> 1"
      show "dle (Finite sqrt2_single) (cand D width y x c)"
      proof (cases "fst c = 0 \<and> snd c = 0")
        case True
        then have c0: "c = (0, 0)" by (simp add: prod_eq_iff)
        show ?thesis unfolding c0 selfc f by (simp add: fl_small)
      next
        case False
        have "dle (Finite sqrt2_single) (Finite sqrt2_double)" using sqrt2_order(2) by simp
        then show ?thesis using others [OF b False] dle_trans by blast
      qed
    qed
    then have "dmin (D ! ?idx) (minDist D width y x) = Finite sqrt2_single"
      unfolding f by (rule dmin_eq_left)
    then show ?thesis by (simp add: fl_small)
  next
    assume i: "D ! ?idx = Infinity"
    have "dle (Finite sqrt2_double) (minDist D width y x)"
    proof (rule minDist_ge)
      fix c :: "int \<times> int"
      assume b: "-1 \<le> fst c" "fst c \<le> 1" "-1 \<le> snd c" "snd c \<le> 1"
      show "dle (Finite sqrt2_double) (cand D width y x c)"
      proof (cases "fst c = 0 \<and> snd c = 0")
        case True
        then have c0: "c = (0, 0)" by (simp add: prod_eq_iff)
        show ?thesis unfolding c0 selfc i by simp
      next
        case False
        with b show ?thesis by (rule others)
      qed
    qed
    with up have md: "minDist D width y x = Finite sqrt2_double" by (rule dle_antisym)
    show ?thesis unfolding md i by (simp add: dmin_def fl_small)
  qed
qed

lemma relax_far:
  assumes len: "length D = width * height"
    and int: "1 \<le> x" "x + 1 < width" "1 \<le> y" "y + 1 < height"
    and adm: "\<And>qy qx. qy < height \<Longrightarrow> qx < width \<Longrightarrow> admissible mask' width height D qy qx"
    and own: "dle (Finite 2) (D ! (y * width + x))"
    and nb: "\<not> edgeAmong mask' width height y x [(-1, 0), (0, -1), (0, 1), (1, 0)]"
    and nd: "\<not> edgeAmong mask' width height y x [(-1, -1), (-1, 1), (1, -1), (1, 1)]"
  shows "dle (Finite 2) (toFloat32 (dmin (D ! (y * width + x)) (minDist D width y x)))"
proof -
  let ?idx = "y * width + x"
  have nadm: "admissible mask' width height D (nat (int y + dy)) (nat (int x + dx))"
    if "-1 \<le> dy" "dy \<le> 1" "-1 \<le> dx" "dx \<le> 1" for dy dx :: int
    using neighbour_index(1,2) [OF int that] by (rule adm)
  have selfc: "cand D width y x (0, 0)
         = (case D ! ?idx of Finite v \<Rightarrow> Finite (fl64 v) | Infinity \<Rightarrow> Infinity)"
    using len int by (rule cand_self)
  have low: "dle (Finite 2) (minDist D width y x)"
  proof (rule minDist_ge)
    fix c :: "int \<times> int"
    assume b: "-1 \<le> fst c" "fst c \<le> 1" "-1 \<le> snd c" "snd c \<le> 1"
    show "dle (Finite 2) (cand D width y x c)"
    proof (cases "fst c = 0 \<and> snd c = 0")
      case True
      then have c0: "c = (0, 0)" by (simp add: prod_eq_iff)
      show ?thesis
      proof (cases "D ! ?idx")
        case (Finite v)
        then have "2 \<le> v" using own by simp
        then have "fl64 2 \<le> fl64 v" by (rule fl64_mono)
        then show ?thesis unfolding c0 selfc Finite by (simp add: fl_small)
      next
        case Infinity
        then show ?thesis unfolding c0 selfc by simp
      qed
    next
      case False
      have "\<not> edgePixel mask' width height (nat (int y + fst c)) (nat (int x + snd c))"
        using offset_edge_class [OF b False] nb nd by blast
      with len int b False nadm [OF b] show ?thesis by (rule cand_other')
    qed
  qed
  have m: "dle (Finite 2) (dmin (D ! ?idx) (minDist D width y x))"
    using own low by (simp add: dmin_def)
  show ?thesis
  proof (cases "dmin (D ! ?idx) (minDist D width y x)")
    case (Finite v)
    then have "2 \<le> v" using m by simp
    then have "fl32 2 \<le> fl32 v" by (rule fl32_mono)
    then show ?thesis unfolding Finite by (simp add: fl_small)
  next
    case Infinity
    then show ?thesis by simp
  qed
qed

lemma relax_settles:
  assumes lenm: "length mask' = width * height" and len: "length D = width * height"
    and int: "1 \<le> x" "x + 1 < width" "1 \<le> y" "y + 1 < height"
    and adm: "\<And>qy qx. qy < height \<Longrightarrow> qx < width \<Longrightarrow> admissible mask' width height D qy qx"
  shows "settled mask' width height (relax mask' width y x D) y x"
proof -
  let ?idx = "y * width + x"
  have xy: "x < width" "y < height" using int by simp_all
  then have inb: "?idx < width * height" by (rule pixel_index_bound)
  have self: "admissible mask' width height D y x" using xy(2,1) by (rule adm)
  have rdD: "rd D (int ?idx) = Some (D ! ?idx)" using inb len by (intro rd_in_range) simp
  show ?thesis
  proof (cases "rd mask' (int ?idx) = Some 255 \<and> rd D (int ?idx) \<noteq> Some (Finite 0)")
    case False
    then have same: "relax mask' width y x D = D" unfolding relax_def by (rule if_not_P)
    have "D ! ?idx \<noteq> Infinity \<or> nearDistance mask' width height y x = None"
      using False unfolding rdD by (auto simp: nearDistance_def edgePixel_def)
    with self show ?thesis unfolding same by (rule admissible_settled)
  next
    case True
    then have m: "rd mask' (int ?idx) = Some 255" and nz: "D ! ?idx \<noteq> Finite 0"
      unfolding rdD by simp_all
    have ne: "\<not> edgePixel mask' width height y x"
      using admissible_edge [OF self] nz by blast
    have "relax mask' width y x D
            = D[?idx := toFloat32 (dmin (D ! ?idx) (minDist D width y x))]"
      unfolding relax_def using True by (rule if_P)
    then have new: "relax mask' width y x D ! ?idx
                      = toFloat32 (dmin (D ! ?idx) (minDist D width y x))"
      using inb len by simp
    consider (beside) "edgeAmong mask' width height y x [(-1, 0), (0, -1), (0, 1), (1, 0)]"
      | (diag) "\<not> edgeAmong mask' width height y x [(-1, 0), (0, -1), (0, 1), (1, 0)]"
          "edgeAmong mask' width height y x [(-1, -1), (-1, 1), (1, -1), (1, 1)]"
      | (far) "\<not> edgeAmong mask' width height y x [(-1, 0), (0, -1), (0, 1), (1, 0)]"
          "\<not> edgeAmong mask' width height y x [(-1, -1), (-1, 1), (1, -1), (1, 1)]"
      by blast
    then show ?thesis
    proof cases
      case beside
      have nd: "nearDistance mask' width height y x = Some 1"
        unfolding nearDistance_def using ne m int beside by simp
      then have own: "D ! ?idx = Finite 1 \<or> D ! ?idx = Infinity"
        using self unfolding admissible_def by auto
      show ?thesis unfolding settled_def nd new option.case
        using len int adm ne own beside by (rule relax_beside)
    next
      case diag
      have nd: "nearDistance mask' width height y x = Some sqrt2_single"
        unfolding nearDistance_def using ne m int diag by simp
      then have own: "D ! ?idx = Finite sqrt2_single \<or> D ! ?idx = Infinity"
        using self unfolding admissible_def by auto
      show ?thesis unfolding settled_def nd new option.case
        using len int adm ne own diag by (rule relax_diagonal)
    next
      case far
      have nd: "nearDistance mask' width height y x = None"
        unfolding nearDistance_def using ne far by simp
      then have own: "dle (Finite 2) (D ! ?idx)" using self unfolding admissible_def by simp
      show ?thesis unfolding settled_def nd new option.case
        using len int adm own far by (rule relax_far)
    qed
  qed
qed


section \<open>The distance map below the feather radius\<close>

lemma relax_invariant:
  assumes lenm: "length mask' = width * height"
    and inv: "relaxInvariant mask' width height V D"
    and int: "1 \<le> x" "x + 1 < width" "1 \<le> y" "y + 1 < height"
  shows "relaxInvariant mask' width height (insert (y, x) V) (relax mask' width y x D)"
proof -
  have len: "length D = width * height"
    and adm: "\<And>qy qx. qy < height \<Longrightarrow> qx < width \<Longrightarrow> admissible mask' width height D qy qx"
    and set: "\<And>qy qx. qy < height \<Longrightarrow> qx < width \<Longrightarrow> (qy, qx) \<in> V
                \<Longrightarrow> settled mask' width height D qy qx"
    using inv unfolding relaxInvariant_def by blast+
  have xy: "x < width" "y < height" using int by simp_all
  have here: "settled mask' width height (relax mask' width y x D) y x"
    using lenm len int adm by (rule relax_settles)
  have keep: "relax mask' width y x D ! (qy * width + qx) = D ! (qy * width + qx)"
    if "qx < width" "(qy, qx) \<noteq> (y, x)" for qy qx
  proof (rule relax_other)
    show "qy * width + qx \<noteq> y * width + x"
      using pixel_index_inj [OF that(1) xy(1), of qy y] that(2) by blast
  qed
  have adm': "admissible mask' width height (relax mask' width y x D) qy qx"
    if q: "qy < height" "qx < width" for qy qx
  proof (cases "(qy, qx) = (y, x)")
    case True
    then show ?thesis using here settled_admissible by simp
  next
    case False
    show ?thesis using adm [OF q] unfolding admissible_def keep [OF q(2) False] .
  qed
  have set': "settled mask' width height (relax mask' width y x D) qy qx"
    if q: "qy < height" "qx < width" "(qy, qx) \<in> insert (y, x) V" for qy qx
  proof (cases "(qy, qx) = (y, x)")
    case True
    then show ?thesis using here by simp
  next
    case False
    then have "(qy, qx) \<in> V" using q(3) by blast
    then have "settled mask' width height D qy qx" using q(1,2) set by blast
    then show ?thesis unfolding settled_def keep [OF q(2) False] .
  qed
  show ?thesis
    unfolding relaxInvariant_def using len adm' set' by simp
qed

lemma relax_list_invariant:
  assumes lenm: "length mask' = width * height"
    and inv: "relaxInvariant mask' width height V D"
    and int: "\<And>p. p \<in> set ps \<Longrightarrow> 1 \<le> snd p \<and> snd p + 1 < width \<and> 1 \<le> fst p \<and> fst p + 1 < height"
  shows "relaxInvariant mask' width height (V \<union> set ps)
           (fold (\<lambda>(y, x). relax mask' width y x) ps D)"
  using inv int
proof (induction ps arbitrary: V D)
  case Nil
  then show ?case by simp
next
  case (Cons p ps)
  have b: "1 \<le> snd p" "snd p + 1 < width" "1 \<le> fst p" "fst p + 1 < height"
    using Cons.prems(2) [of p] by simp_all
  have "relaxInvariant mask' width height (insert (fst p, snd p) V)
          (relax mask' width (fst p) (snd p) D)"
    using lenm Cons.prems(1) b by (rule relax_invariant)
  then have "relaxInvariant mask' width height (insert p V \<union> set ps)
          (fold (\<lambda>(y, x). relax mask' width y x) ps (relax mask' width (fst p) (snd p) D))"
    using Cons.prems(2) by (intro Cons.IH) simp_all
  then show ?case by (simp add: case_prod_unfold)
qed

lemma sweep_invariant:
  assumes lenm: "length mask' = width * height"
    and inv: "relaxInvariant mask' width height V D"
  shows "relaxInvariant mask' width height
           (V \<union> set (List.product [1..<height - 1] [1..<width - 1]))
           (fold (\<lambda>y. fold (\<lambda>x distances. relax mask' width y x distances) [1..<width - 1])
              [1..<height - 1] D)"
  unfolding fold_nest_product
  using lenm inv by (rule relax_list_invariant) auto

lemma seeded_invariant:
  assumes lenm: "length mask' = width * height"
  shows "relaxInvariant mask' width height {}
           (fold (\<lambda>y. fold (\<lambda>x distances.
                     if rd mask' (int (y * width + x)) = Some 255 \<and> isEdge mask' width height y x
                     then distances[y * width + x := Finite 0] else distances)
                   [0..<width]) [0..<height] (replicate (length mask') Infinity))"
proof -
  let ?S = "upd_loop (\<lambda>p. rd mask' (int (fst p * width + snd p)) = Some 255
                          \<and> isEdge mask' width height (fst p) (snd p))
              (\<lambda>p. fst p * width + snd p) (\<lambda>p. Finite 0)
              (List.product [0..<height] [0..<width]) (replicate (length mask') Infinity)"
  have eq: "fold (\<lambda>y. fold (\<lambda>x distances.
                     if rd mask' (int (y * width + x)) = Some 255 \<and> isEdge mask' width height y x
                     then distances[y * width + x := Finite 0] else distances)
                   [0..<width]) [0..<height] (replicate (length mask') Infinity) = ?S"
    by (rule upd_loop_nest)
  have v: "?S ! (qy * width + qx)
             = (if edgePixel mask' width height qy qx then Finite 0 else Infinity)"
    if q: "qy < height" "qx < width" for qy qx
  proof -
    have inb: "qy * width + qx < length (replicate (length mask') Infinity :: distance list)"
      using pixel_index_bound [OF q(2,1)] lenm by simp
    have "?S ! (qy * width + qx)
            = (if rd mask' (int (fst (qy, qx) * width + snd (qy, qx))) = Some 255
                  \<and> isEdge mask' width height (fst (qy, qx)) (snd (qy, qx))
               then Finite 0
               else replicate (length mask') Infinity ! (qy * width + qx))"
      using q inb by (intro upd_loop_pixel_in) simp_all
    then show ?thesis using inb by (simp add: edgePixel_def)
  qed
  have "admissible mask' width height ?S qy qx" if q: "qy < height" "qx < width" for qy qx
    unfolding admissible_def v [OF q]
    using sqrt2_order(5) by (auto simp: nearDistance_def split: option.split)
  then show ?thesis unfolding eq relaxInvariant_def using lenm by simp
qed

lemma createDistanceMap_invariant:
  assumes lenm: "length mask' = width * height"
  shows "relaxInvariant mask' width height (set (List.product [1..<height - 1] [1..<width - 1]))
           (createDistanceMap mask' width height)"
proof -
  let ?I = "set (List.product [1..<height - 1] [1..<width - 1])"
  let ?sweep = "fold (\<lambda>y. fold (\<lambda>x distances. relax mask' width y x distances) [1..<width - 1])
              [1..<height - 1]"
  have step: "relaxInvariant mask' width height ?I (?sweep D)"
    if "relaxInvariant mask' width height V D" "V \<subseteq> ?I" for V D
  proof -
    have "relaxInvariant mask' width height (V \<union> ?I) (?sweep D)"
      using lenm that(1) by (rule sweep_invariant)
    moreover have "V \<union> ?I = ?I" using that(2) by blast
    ultimately show ?thesis by simp
  qed
  have five: "[0..<5] = [0, 1, 2, 3, 4 :: nat]" by (simp add: upt_rec)
  let ?S = "fold (\<lambda>y. fold (\<lambda>x distances.
                     if rd mask' (int (y * width + x)) = Some 255 \<and> isEdge mask' width height y x
                     then distances[y * width + x := Finite 0] else distances)
                   [0..<width]) [0..<height] (replicate (length mask') Infinity)"
  have s0: "relaxInvariant mask' width height {} ?S" using lenm by (rule seeded_invariant)
  have s1: "relaxInvariant mask' width height ?I (?sweep ?S)" using s0 by (rule step) simp
  have s2: "relaxInvariant mask' width height ?I (?sweep (?sweep ?S))" using s1 by (rule step) simp
  have s3: "relaxInvariant mask' width height ?I (?sweep (?sweep (?sweep ?S)))"
    using s2 by (rule step) simp
  have s4: "relaxInvariant mask' width height ?I (?sweep (?sweep (?sweep (?sweep ?S))))"
    using s3 by (rule step) simp
  have s5: "relaxInvariant mask' width height ?I
              (?sweep (?sweep (?sweep (?sweep (?sweep ?S)))))"
    using s4 by (rule step) simp
  have "createDistanceMap mask' width height = ?sweep (?sweep (?sweep (?sweep (?sweep ?S))))"
    unfolding createDistanceMap_def Let_def five by simp
  then show ?thesis using s5 by simp
qed

lemma createDistanceMap_settled:
  assumes lenm: "length mask' = width * height" and xy: "x < width" "y < height"
  shows "settled mask' width height (createDistanceMap mask' width height) y x"
proof -
  let ?D = "createDistanceMap mask' width height"
  have inv: "relaxInvariant mask' width height
               (set (List.product [1..<height - 1] [1..<width - 1])) ?D"
    using lenm by (rule createDistanceMap_invariant)
  then have adm: "admissible mask' width height ?D y x"
    and set: "(y, x) \<in> set (List.product [1..<height - 1] [1..<width - 1])
                \<Longrightarrow> settled mask' width height ?D y x"
    unfolding relaxInvariant_def using xy by blast+
  show ?thesis
  proof (cases "1 \<le> x \<and> x + 1 < width \<and> 1 \<le> y \<and> y + 1 < height")
    case True
    then have "(y, x) \<in> set (List.product [1..<height - 1] [1..<width - 1])" by auto
    then show ?thesis by (rule set)
  next
    case False
    then have "nearDistance mask' width height y x = Some 0
               \<or> nearDistance mask' width height y x = None"
      by (auto simp: nearDistance_def)
    then have "?D ! (y * width + x) \<noteq> Infinity \<or> nearDistance mask' width height y x = None"
      using adm by (auto simp: admissible_def)
    with adm show ?thesis by (rule admissible_settled)
  qed
qed

lemma createDistanceMap_length:
  "length mask' = width * height \<Longrightarrow> length (createDistanceMap mask' width height) = width * height"
  using createDistanceMap_invariant [of mask' width height] by (simp add: relaxInvariant_def)


section \<open>Feathering: the alpha written for a pixel\<close>

lemma applyMaskWithSmoothAlpha_cell_loop:
  "applyMaskWithSmoothAlpha imageData mask' width height =
     cell_loop (smoothAlpha mask' (createDistanceMap mask' width height)) (\<lambda>idx. 4 * idx + 3)
       [0..<(length imageData + 3) div 4] imageData"
proof -
  let ?dm = "createDistanceMap mask' width height"
  have "(\<lambda>idx imageData.
           if rd mask' (int idx) = Some 0 then imageData[4 * idx + 3 := 0]
           else (case rd ?dm (int idx) of
                   Some (Finite distance) \<Rightarrow>
                     if distance < featherRadius
                     then (let alpha = min 1 (fl64 (fl64 (fl64 (distance / featherRadius)
                                                              * fl64 0.3) + fl64 0.7))
                           in if 4 * idx + 3 < length imageData
                              then imageData[4 * idx + 3 :=
                                     u8clamp \<lfloor>fl64 (real (imageData ! (4 * idx + 3)) * alpha)\<rfloor>]
                              else imageData)
                     else imageData
                 | _ \<Rightarrow> imageData))
        = (\<lambda>idx imageData. imageData[4 * idx + 3 := smoothAlpha mask' ?dm idx (imageData ! (4 * idx + 3))])"
    by (intro ext)
      (auto simp: smoothAlpha_def feathered_def featherRadius_def list_update_beyond not_less Let_def
        split: option.split distance.split)
  then show ?thesis
    unfolding applyMaskWithSmoothAlpha_def cell_loop_def Let_def by simp
qed

lemma applyMaskWithSmoothAlpha_alpha:
  assumes "4 * idx + 3 < length imageData"
  shows "applyMaskWithSmoothAlpha imageData mask' width height ! (4 * idx + 3)
           = smoothAlpha mask' (createDistanceMap mask' width height) idx (imageData ! (4 * idx + 3))"
proof -
  have m: "idx \<in> set [0..<(length imageData + 3) div 4]" using assms by auto
  have d: "distinct (map (\<lambda>idx. 4 * idx + 3) [0..<(length imageData + 3) div 4])"
    by (simp add: distinct_map inj_on_def)
  show ?thesis
    unfolding applyMaskWithSmoothAlpha_cell_loop
    using cell_loop_hit [of idx "[0..<(length imageData + 3) div 4]" "\<lambda>idx. 4 * idx + 3" imageData
        "smoothAlpha mask' (createDistanceMap mask' width height)"] m assms d by simp
qed

lemma u8clamp_mono: "u \<le> v \<Longrightarrow> u8clamp u \<le> u8clamp v"
  by (simp add: u8clamp_def nat_le_iff min_def max_def)

lemma fl64_nonneg: "0 \<le> x \<Longrightarrow> 0 \<le> fl64 x"
  unfolding fl64_def by (rule roundTo_nonneg)

lemma feather_mono:
  assumes "d1 \<le> d2"
  shows "feathered a d1 \<le> feathered a d2"
proof -
  have c: "0 \<le> fl64 0.3" by (rule fl64_nonneg) simp
  have "fl64 (d1 / 2) \<le> fl64 (d2 / 2)" using assms by (intro fl64_mono) simp
  then have "fl64 (d1 / 2) * fl64 0.3 \<le> fl64 (d2 / 2) * fl64 0.3" using c by (rule mult_right_mono)
  then have "fl64 (fl64 (d1 / 2) * fl64 0.3) \<le> fl64 (fl64 (d2 / 2) * fl64 0.3)" by (rule fl64_mono)
  then have "fl64 (fl64 (fl64 (d1 / 2) * fl64 0.3) + fl64 0.7)
               \<le> fl64 (fl64 (fl64 (d2 / 2) * fl64 0.3) + fl64 0.7)"
    by (intro fl64_mono) simp
  then have "min 1 (fl64 (fl64 (fl64 (d1 / 2) * fl64 0.3) + fl64 0.7))
               \<le> min 1 (fl64 (fl64 (fl64 (d2 / 2) * fl64 0.3) + fl64 0.7))"
    by (simp add: min_def)
  then have "real a * min 1 (fl64 (fl64 (fl64 (d1 / 2) * fl64 0.3) + fl64 0.7))
               \<le> real a * min 1 (fl64 (fl64 (fl64 (d2 / 2) * fl64 0.3) + fl64 0.7))"
    by (rule mult_left_mono) simp
  then have "fl64 (real a * min 1 (fl64 (fl64 (fl64 (d1 / 2) * fl64 0.3) + fl64 0.7)))
               \<le> fl64 (real a * min 1 (fl64 (fl64 (fl64 (d2 / 2) * fl64 0.3) + fl64 0.7)))"
    by (rule fl64_mono)
  then have "\<lfloor>fl64 (real a * min 1 (fl64 (fl64 (fl64 (d1 / 2) * fl64 0.3) + fl64 0.7)))\<rfloor>
               \<le> \<lfloor>fl64 (real a * min 1 (fl64 (fl64 (fl64 (d2 / 2) * fl64 0.3) + fl64 0.7)))\<rfloor>"
    by (rule floor_mono)
  then show ?thesis unfolding feathered_def by (rule u8clamp_mono)
qed

lemma fl64_byte: "a \<le> 255 \<Longrightarrow> fl64 (real a) = real a"
proof -
  assume "a \<le> 255"
  then have "\<bar>int a\<bar> < 2 ^ 53" by simp
  then have "roundTo 53 (real_of_int (int a) * 2 powi 0) = real_of_int (int a) * 2 powi 0"
    by (rule roundTo_exact)
  then show ?thesis by (simp add: fl64_def)
qed

lemma feather_le: "feathered a d \<le> a"
proof (cases "a \<le> 255")
  case True
  have "real a * min 1 (fl64 (fl64 (fl64 (d / 2) * fl64 0.3) + fl64 0.7)) \<le> real a * 1"
    by (rule mult_left_mono) simp_all
  then have "fl64 (real a * min 1 (fl64 (fl64 (fl64 (d / 2) * fl64 0.3) + fl64 0.7)))
               \<le> fl64 (real a)"
    by (intro fl64_mono) simp
  then have "\<lfloor>fl64 (real a * min 1 (fl64 (fl64 (fl64 (d / 2) * fl64 0.3) + fl64 0.7)))\<rfloor>
               \<le> \<lfloor>real a\<rfloor>"
    unfolding fl64_byte [OF True] by (rule floor_mono)
  then have "\<lfloor>fl64 (real a * min 1 (fl64 (fl64 (fl64 (d / 2) * fl64 0.3) + fl64 0.7)))\<rfloor> \<le> int a"
    by simp
  then show ?thesis by (simp add: feathered_def u8clamp_def)
next
  case False
  have "feathered a d \<le> 255" by (simp add: feathered_def u8clamp_def)
  then show ?thesis using False by simp
qed

lemma smoothAlpha_le: "smoothAlpha mask' distanceMap i a \<le> a"
  by (simp add: smoothAlpha_def feather_le split: option.split distance.split)

lemma smoothAlpha_mono:
  assumes "rd mask' (int i) \<noteq> Some 0" "rd mask' (int j) \<noteq> Some 0"
    and "rd distanceMap (int i) = Some di" "rd distanceMap (int j) = Some dj" "dle di dj"
  shows "smoothAlpha mask' distanceMap i a \<le> smoothAlpha mask' distanceMap j a"
proof (cases "\<exists>d2. dj = Finite d2 \<and> d2 < 2")
  case True
  then obtain d2 where d2: "dj = Finite d2" "d2 < 2" by blast
  obtain d1 where d1: "di = Finite d1" "d1 \<le> d2"
    using assms(5) d2(1) by (cases di) simp_all
  then have "d1 < 2" using d2(2) by simp
  then show ?thesis
    using assms(1-4) d1 d2 feather_mono [OF d1(2), of a] by (simp add: smoothAlpha_def)
next
  case False
  then have "smoothAlpha mask' distanceMap j a = a"
    using assms(2,4) by (cases dj) (auto simp: smoothAlpha_def)
  then show ?thesis using smoothAlpha_le [of mask' distanceMap i a] by simp
qed

lemma smoothAlpha_near:
  assumes lenm: "length mask' = width * height" and xy: "x < width" "y < height"
  shows "smoothAlpha mask' (createDistanceMap mask' width height) (y * width + x) a
           = nearAlpha mask' width height y x a"
proof -
  let ?D = "createDistanceMap mask' width height"
  let ?idx = "y * width + x"
  have inb: "?idx < width * height" using xy by (rule pixel_index_bound)
  have rm: "rd mask' (int ?idx) = Some (mask' ! ?idx)" using inb lenm by (intro rd_in_range) simp
  have rD: "rd ?D (int ?idx) = Some (?D ! ?idx)"
    using inb createDistanceMap_length [OF lenm] by (intro rd_in_range) simp
  have s: "settled mask' width height ?D y x" using lenm xy by (rule createDistanceMap_settled)
  show ?thesis
  proof (cases "nearDistance mask' width height y x")
    case None
    then have "dle (Finite 2) (?D ! ?idx)" using s by (simp add: settled_def)
    then have "?D ! ?idx = Infinity \<or> (\<exists>v. ?D ! ?idx = Finite v \<and> 2 \<le> v)"
      by (cases "?D ! ?idx") simp_all
    then show ?thesis unfolding smoothAlpha_def nearAlpha_def rm rD None by auto
  next
    case (Some d)
    then have v: "?D ! ?idx = Finite d" using s by (simp add: settled_def)
    have "d = 0 \<or> d = 1 \<or> d = sqrt2_single"
      using Some by (auto simp: nearDistance_def split: if_splits)
    then have "d < 2" using sqrt2_order(4) by auto
    then show ?thesis unfolding smoothAlpha_def nearAlpha_def rm rD Some v by simp
  qed
qed

text \<open>
  C7, as amended.  For an image of four bytes per pixel and a mask of one byte per pixel:
  the distance map holds 0 at an edge pixel (a pixel that holds 255 with a neighbour
  that holds 0); at a pixel that holds 255, is no edge pixel and lies off the outermost
  rows and columns it holds 1 when a direct neighbour is an edge pixel and otherwise
  the single-precision square root of 2 when a diagonal neighbour is one; at every
  other pixel, so at every pixel of the outermost rows and columns that is no edge
  pixel, it holds a distance that is not below 2 or \<^verbatim>\<open>Infinity\<close>.  The alpha of a pixel becomes
  0 where the mask holds 0; where the distance d is below 2 it becomes the old alpha
  times min(1, d / 2 x 0.3 + 0.7), computed in doubles and rounded down; elsewhere it
  stays.  Of two pixels that the mask does not mark 0, with equal old alpha, the one
  whose entry of the distance map is not larger gets the alpha that is not larger.
\<close>

theorem feathering_alpha_monotone_in_distance:
  assumes "length imageData = 4 * width * height" "length mask' = width * height"
    and "x < width" "y < height" "x' < width" "y' < height"
  shows "settled mask' width height (createDistanceMap mask' width height) y x
       \<and> applyMaskWithSmoothAlpha imageData mask' width height ! (4 * (y * width + x) + 3)
           = (if mask' ! (y * width + x) = 0 then 0
              else (case createDistanceMap mask' width height ! (y * width + x) of
                      Finite d \<Rightarrow>
                        if d < 2 then feathered (imageData ! (4 * (y * width + x) + 3)) d
                        else imageData ! (4 * (y * width + x) + 3)
                    | Infinity \<Rightarrow> imageData ! (4 * (y * width + x) + 3)))
       \<and> applyMaskWithSmoothAlpha imageData mask' width height ! (4 * (y * width + x) + 3)
           = nearAlpha mask' width height y x (imageData ! (4 * (y * width + x) + 3))
       \<and> (mask' ! (y * width + x) \<noteq> 0 \<and> mask' ! (y' * width + x') \<noteq> 0
            \<and> imageData ! (4 * (y * width + x) + 3) = imageData ! (4 * (y' * width + x') + 3)
            \<and> dle (createDistanceMap mask' width height ! (y * width + x))
                   (createDistanceMap mask' width height ! (y' * width + x'))
          \<longrightarrow> applyMaskWithSmoothAlpha imageData mask' width height ! (4 * (y * width + x) + 3)
                \<le> applyMaskWithSmoothAlpha imageData mask' width height
                     ! (4 * (y' * width + x') + 3))"
proof (intro conjI impI)
  let ?D = "createDistanceMap mask' width height"
  let ?i = "y * width + x" and ?j = "y' * width + x'"
  have ib: "?i < width * height" using assms(3,4) by (rule pixel_index_bound)
  have jb: "?j < width * height" using assms(5,6) by (rule pixel_index_bound)
  have ia: "4 * ?i + 3 < length imageData" using ib assms(1) by simp
  have ja: "4 * ?j + 3 < length imageData" using jb assms(1) by simp
  have rmi: "rd mask' (int ?i) = Some (mask' ! ?i)" using ib assms(2) by (intro rd_in_range) simp
  have rmj: "rd mask' (int ?j) = Some (mask' ! ?j)" using jb assms(2) by (intro rd_in_range) simp
  have rDi: "rd ?D (int ?i) = Some (?D ! ?i)"
    using ib createDistanceMap_length [OF assms(2)] by (intro rd_in_range) simp
  have rDj: "rd ?D (int ?j) = Some (?D ! ?j)"
    using jb createDistanceMap_length [OF assms(2)] by (intro rd_in_range) simp
  show "settled mask' width height ?D y x" using assms(2,3,4) by (rule createDistanceMap_settled)
  show "applyMaskWithSmoothAlpha imageData mask' width height ! (4 * ?i + 3)
           = (if mask' ! ?i = 0 then 0
              else (case ?D ! ?i of
                      Finite d \<Rightarrow>
                        if d < 2 then feathered (imageData ! (4 * ?i + 3)) d
                        else imageData ! (4 * ?i + 3)
                    | Infinity \<Rightarrow> imageData ! (4 * ?i + 3)))"
    unfolding applyMaskWithSmoothAlpha_alpha [OF ia] smoothAlpha_def rmi rDi
    by (simp split: distance.split)
  show "applyMaskWithSmoothAlpha imageData mask' width height ! (4 * ?i + 3)
           = nearAlpha mask' width height y x (imageData ! (4 * ?i + 3))"
    unfolding applyMaskWithSmoothAlpha_alpha [OF ia] using assms(2,3,4) by (rule smoothAlpha_near)
  assume h: "mask' ! ?i \<noteq> 0 \<and> mask' ! ?j \<noteq> 0
            \<and> imageData ! (4 * ?i + 3) = imageData ! (4 * ?j + 3) \<and> dle (?D ! ?i) (?D ! ?j)"
  have "smoothAlpha mask' ?D ?i (imageData ! (4 * ?j + 3))
          \<le> smoothAlpha mask' ?D ?j (imageData ! (4 * ?j + 3))"
    using h rmi rmj rDi rDj by (intro smoothAlpha_mono [where di = "?D ! ?i" and dj = "?D ! ?j"]) simp_all
  then show "applyMaskWithSmoothAlpha imageData mask' width height ! (4 * ?i + 3)
                \<le> applyMaskWithSmoothAlpha imageData mask' width height ! (4 * ?j + 3)"
    unfolding applyMaskWithSmoothAlpha_alpha [OF ia] applyMaskWithSmoothAlpha_alpha [OF ja]
    using h by simp
qed

lemma corner_near:
  "nearDistance corner_mask 4 4 1 1 = Some 0"
  "nearDistance corner_mask 4 4 2 2 = Some sqrt2_single"
  "nearDistance corner_mask 4 4 0 2 = None"
  by code_simp+

lemma corner_feathered:
  "feathered 90 0 = 62" "feathered 90 sqrt2_single = 82"
  by code_simp+

lemma corner_cells:
  "corner_mask ! (1 * 4 + 1) = 255" "corner_mask ! (2 * 4 + 2) = 255"
  "corner_mask ! (0 * 4 + 2) = 255"
  "corner_image ! (4 * (1 * 4 + 1) + 3) = 90" "corner_image ! (4 * (2 * 4 + 2) + 3) = 90"
  "corner_image ! (4 * (0 * 4 + 2) + 3) = 90"
  by (simp_all add: corner_mask_def corner_image_def)

lemma corner_lengths:
  "length corner_image = 4 * 4 * 4" "length corner_mask = 4 * 4"
  by (simp_all add: corner_mask_def corner_image_def)

lemma corner_distances:
  "sqDistanceTo (edgePixel corner_mask 4 4) 4 4 0 2 = 1"
  "sqDistanceTo (edgePixel corner_mask 4 4) 4 4 2 2 = 2"
  "sqDistanceTo (\<lambda>y x. corner_mask ! (y * 4 + x) = 0) 4 4 0 2 = 4"
  "sqDistanceTo (\<lambda>y x. corner_mask ! (y * 4 + x) = 0) 4 4 2 2 = 8"
  by code_simp+

theorem feathering_alpha_monotone_in_distance_witness:
  "length corner_image = 4 * 4 * 4 \<and> length corner_mask = 4 * 4 \<and> (1::nat) < 4 \<and> (2::nat) < 4
   \<and> createDistanceMap corner_mask 4 4 ! (1 * 4 + 1) = Finite 0
   \<and> applyMaskWithSmoothAlpha corner_image corner_mask 4 4 ! (4 * (1 * 4 + 1) + 3) = 62
   \<and> applyMaskWithSmoothAlpha corner_image corner_mask 4 4 ! (4 * (1 * 4 + 1) + 3)
       \<le> applyMaskWithSmoothAlpha corner_image corner_mask 4 4 ! (4 * (2 * 4 + 2) + 3)"
proof -
  have h: "length corner_image = 4 * 4 * 4" "length corner_mask = 4 * 4" "(1::nat) < 4" "(2::nat) < 4"
    by (simp_all add: corner_lengths)
  note t = feathering_alpha_monotone_in_distance [OF h(1,2) h(3) h(3) h(4) h(4)]
  note u = feathering_alpha_monotone_in_distance [OF h(1,2) h(4) h(4) h(3) h(3)]
  have d1: "createDistanceMap corner_mask 4 4 ! (1 * 4 + 1) = Finite 0"
    using t unfolding settled_def corner_near by simp
  have d2: "createDistanceMap corner_mask 4 4 ! (2 * 4 + 2) = Finite sqrt2_single"
    using u unfolding settled_def corner_near by simp
  have a1: "applyMaskWithSmoothAlpha corner_image corner_mask 4 4 ! (4 * (1 * 4 + 1) + 3) = 62"
    using t unfolding nearAlpha_def corner_near corner_cells by (simp add: corner_feathered)
  have "dle (createDistanceMap corner_mask 4 4 ! (1 * 4 + 1))
            (createDistanceMap corner_mask 4 4 ! (2 * 4 + 2))"
    unfolding d1 d2 using sqrt2_order(1) by simp
  then have "applyMaskWithSmoothAlpha corner_image corner_mask 4 4 ! (4 * (1 * 4 + 1) + 3)
       \<le> applyMaskWithSmoothAlpha corner_image corner_mask 4 4 ! (4 * (2 * 4 + 2) + 3)"
    using t unfolding corner_cells by simp
  with h d1 a1 show ?thesis by blast
qed

text \<open>
  C7 as stated fails on the outermost rows and columns.  In the 4x4 mask whose only
  background pixel is the corner, the pixel (2, 0) is next to the edge pixel (1, 0), at
  distance 1 from the nearest edge pixel and 2 from the background pixel, and the pixel
  (2, 2) is at distance square root of 2 from the nearest edge pixel and square root
  of 8 from the background pixel; both are foreground with the old alpha 90.  The
  nearer pixel keeps 90 and the farther pixel gets 82: the alpha falls as the distance
  to the boundary grows, whichever of the two distances is meant.
\<close>

theorem feathering_outer_pixel_counterexample:
  "corner_mask ! (0 * 4 + 2) = 255 \<and> corner_mask ! (2 * 4 + 2) = 255
   \<and> corner_image ! (4 * (0 * 4 + 2) + 3) = 90 \<and> corner_image ! (4 * (2 * 4 + 2) + 3) = 90
   \<and> sqDistanceTo (edgePixel corner_mask 4 4) 4 4 0 2 = 1
   \<and> sqDistanceTo (edgePixel corner_mask 4 4) 4 4 2 2 = 2
   \<and> sqDistanceTo (\<lambda>y x. corner_mask ! (y * 4 + x) = 0) 4 4 0 2 = 4
   \<and> sqDistanceTo (\<lambda>y x. corner_mask ! (y * 4 + x) = 0) 4 4 2 2 = 8
   \<and> applyMaskWithSmoothAlpha corner_image corner_mask 4 4 ! (4 * (0 * 4 + 2) + 3) = 90
   \<and> applyMaskWithSmoothAlpha corner_image corner_mask 4 4 ! (4 * (2 * 4 + 2) + 3) = 82"
proof -
  have h: "length corner_mask = 4 * 4" "(2::nat) < 4" "(0::nat) < 4"
    by (simp_all add: corner_lengths)
  have i: "4 * (0 * 4 + 2) + 3 < length corner_image" "4 * (2 * 4 + 2) + 3 < length corner_image"
    by (simp_all add: corner_lengths)
  have "applyMaskWithSmoothAlpha corner_image corner_mask 4 4 ! (4 * (0 * 4 + 2) + 3)
          = nearAlpha corner_mask 4 4 0 2 (corner_image ! (4 * (0 * 4 + 2) + 3))"
    unfolding applyMaskWithSmoothAlpha_alpha [OF i(1)] using h(1,2,3) by (rule smoothAlpha_near)
  then have a: "applyMaskWithSmoothAlpha corner_image corner_mask 4 4 ! (4 * (0 * 4 + 2) + 3) = 90"
    unfolding nearAlpha_def corner_near corner_cells by simp
  have "applyMaskWithSmoothAlpha corner_image corner_mask 4 4 ! (4 * (2 * 4 + 2) + 3)
          = nearAlpha corner_mask 4 4 2 2 (corner_image ! (4 * (2 * 4 + 2) + 3))"
    unfolding applyMaskWithSmoothAlpha_alpha [OF i(2)] using h(1,2,2) by (rule smoothAlpha_near)
  then have b: "applyMaskWithSmoothAlpha corner_image corner_mask 4 4 ! (4 * (2 * 4 + 2) + 3) = 82"
    unfolding nearAlpha_def corner_near corner_cells by (simp add: corner_feathered)
  show ?thesis
    unfolding a b corner_distances corner_cells by simp
qed

section \<open>The fallback chain\<close>

lemma removeBackground_remote_ok:
  "realBackgroundRemoval e = Resolved url \<Longrightarrow> removeBackground e = Resolved url"
  by (simp add: removeBackground_def)

lemma removeBackground_bodyPix_ok:
  "realBackgroundRemoval e = Rejected error \<Longrightarrow> bodyPixAttempt e = Resolved url \<Longrightarrow>
   removeBackground e = Resolved url"
  by (simp add: removeBackground_def clientSideBackgroundRemoval_def)

lemma removeBackground_heuristic:
  "realBackgroundRemoval e = Rejected error \<Longrightarrow> bodyPixAttempt e = Rejected error' \<Longrightarrow>
   imageLoad e = Loaded data width height \<Longrightarrow>
   removeBackground e =
     (case improvedAlgorithm (boundDetectImageEdges e) data width height of
        Inl exception \<Rightarrow> Pending
      | Inr processed \<Rightarrow> Resolved (toDataURL e processed width height))"
  by (simp add: removeBackground_def clientSideBackgroundRemoval_def
      improvedAlgorithmBackgroundRemoval_def split: sum.split)

lemma removeBackground_unbound:
  "realBackgroundRemoval e = Rejected error \<Longrightarrow> bodyPixAttempt e = Rejected error' \<Longrightarrow>
   imageLoad e = Loaded data width height \<Longrightarrow> boundDetectImageEdges e = None \<Longrightarrow>
   removeBackground e = Pending"
  by (simp add: removeBackground_heuristic improvedAlgorithm_unbound)

lemma removeBackground_rejected_iff:
  "(\<exists>message. removeBackground e = Rejected message) \<longleftrightarrow>
   (\<exists>error error' message. realBackgroundRemoval e = Rejected error
      \<and> bodyPixAttempt e = Rejected error' \<and> imageLoad e = LoadError message)"
  by (auto simp: removeBackground_def clientSideBackgroundRemoval_def
      improvedAlgorithmBackgroundRemoval_def split: promise.splits image_load.splits sum.splits)

text \<open>
  C3 at a failing input.  The network call fails and the BodyPix attempt fails, so
  \<^verbatim>\<open>removeBackground\<close> reaches the heuristic path; there the call of the unbound
  \<^verbatim>\<open>detectImageEdges\<close> throws inside the \<^verbatim>\<open>onload\<close> handler, and the promise that
  \<^verbatim>\<open>removeBackground\<close> returns never settles: the caller gets neither a result nor an error.
\<close>

theorem removeBackground_never_settles:
  "removeBackground offline_env = Pending"
  by (rule removeBackground_unbound) (simp_all add: offline_env_def)

end
